theory Spec2Isabelle
  imports Main "HOL-Library.Word"
begin

unbundle bit_operations_syntax

section \<open>Data model of the RowBinary reader\<close>

type_synonym byte = "8 word"
type_synonym uint16 = "16 word"
type_synonym uint32 = "32 word"
type_synonym uint64 = "64 word"

text \<open>
  The errors a call can return: \<open>io.EOF\<close> (the spec's \<open>Truncated\<close>),
  \<open>ErrUvarintOverflow\<close> (reader.go, line 11), and any other error value of the
  wrapped \<open>io.Reader\<close>, passed through unchanged.
\<close>

datatype error = EOF | ErrUvarintOverflow | SourceError nat

text \<open>
  A Go call either panics or returns its pair \<open>(value, err)\<close>; \<open>err = None\<close> is
  Go's \<open>nil\<close> error. A \<open>nil\<close> slice and an empty slice are both the list \<open>[]\<close>.
\<close>

datatype 'a outcome = Panic | Return 'a "error option"

subsection \<open>The wrapped \<open>io.Reader\<close>\<close>

text \<open>
  The byte source is an interface value of Go's standard library. It is modelled by the
  responses it still has to give: a response holds the bytes that are available at that
  moment and the error reported once they are handed out. One call \<open>Read(p)\<close> with
  \<open>len(p) = k\<close> returns at most \<open>k\<close> bytes; what does not fit stays for the next call. A
  source with no response left reports \<open>io.EOF\<close> for ever. \<open>Chunk [] None\<close> is a call
  that returns \<open>(0, nil)\<close>. An in-memory stream of the bytes \<open>bs\<close> is \<open>[Chunk bs None]\<close>.
\<close>

datatype event = Chunk "byte list" "error option"

type_synonym source = "event list"

fun src_Read :: "source \<Rightarrow> nat \<Rightarrow> byte list \<times> error option \<times> source" where
  "src_Read [] k = ([], Some EOF, [])"
| "src_Read (Chunk bs e # rest) k =
     (if length bs \<le> k then (bs, e, rest)
      else (take k bs, None, Chunk (drop k bs) e # rest))"

subsection \<open>The reader and its scratch buffer\<close>

record Reader =
  wrapped :: source
  buf :: "byte list"

definition SIZE_INT8 :: nat where "SIZE_INT8 = 1"
definition SIZE_INT16 :: nat where "SIZE_INT16 = 2"
definition SIZE_INT32 :: nat where "SIZE_INT32 = 4"
definition SIZE_INT64 :: nat where "SIZE_INT64 = 8"

definition NewReader :: "source \<Rightarrow> Reader" where
  "NewReader rdr = \<lparr>wrapped = rdr, buf = replicate 65536 0\<rparr>"

text \<open>
  \<open>r.wrapped.Read(r.buf[lo:hi])\<close>, for a slice expression that is in range: the bytes
  delivered overwrite the buffer from \<open>lo\<close> on, and the call returns their number and
  the error of the source.
\<close>

definition wrapped_Read :: "Reader \<Rightarrow> nat \<Rightarrow> nat \<Rightarrow> nat \<times> error option \<times> Reader" where
  "wrapped_Read r lo hi =
     (case src_Read (wrapped r) (hi - lo) of
        (bs, e, src') \<Rightarrow>
          (length bs, e,
           \<lparr>wrapped = src', buf = take lo (buf r) @ bs @ drop (lo + length bs) (buf r)\<rparr>))"

text \<open>
  \<open>Reader.read\<close> (reader.go, lines 37 to 45). \<open>want\<close> is a Go \<open>int\<close>; the slice
  expression \<open>r.buf[0:want]\<close> panics when \<open>want\<close> is negative or beyond the capacity,
  which \<open>make([]byte, 65536)\<close> sets to the length. The slice returned shares the
  buffer; the model returns the bytes it holds when the call returns.
\<close>

definition read :: "Reader \<Rightarrow> int \<Rightarrow> byte list outcome \<times> Reader" where
  "read r want =
     (if want < 0 \<or> int (length (buf r)) < want then (Panic, r)
      else case wrapped_Read r 0 (nat want) of
        (n, err, r') \<Rightarrow>
          if err \<noteq> None then (Return [] err, r')
          else if int n < want then (Return [] (Some EOF), r')
          else (Return (take (nat want) (buf r')) None, r'))"

text \<open>
  \<open>Reader.ReadUvarint\<close> (reader.go, lines 47 to 76): the loop over \<open>i\<close>, with the
  accumulator \<open>x\<close> and the shift \<open>s\<close>. Each byte is read into \<open>r.buf[i : i+1]\<close>, a
  slice expression that panics on a buffer shorter than \<open>i + 1\<close>. A shift of a \<open>uint64\<close>
  by 64 or more gives 0 in Go, as \<open>push_bit\<close> does on a word.
\<close>

function ReadUvarint_loop :: "Reader \<Rightarrow> nat \<Rightarrow> uint64 \<Rightarrow> nat \<Rightarrow> uint64 outcome \<times> Reader" where
  "ReadUvarint_loop r i x s =
     (if i \<ge> SIZE_INT64 then (Return 0 (Some ErrUvarintOverflow), r)
      else if length (buf r) < i + 1 then (Panic, r)
      else case wrapped_Read r i (i + 1) of
        (n, err, r') \<Rightarrow>
          if err \<noteq> None then (Return 0 err, r')
          else if n \<noteq> 1 then (Return 0 (Some EOF), r')
          else if buf r' ! i < 0x80 then
            (if i > 9 \<or> i = 9 \<and> buf r' ! i > 1
             then (Return 0 (Some ErrUvarintOverflow), r')
             else (Return (x OR push_bit s (ucast (buf r' ! i))) None, r'))
          else ReadUvarint_loop r' (i + 1)
                 (x OR push_bit s (ucast (buf r' ! i AND 0x7f))) (s + 7))"
  by pat_completeness auto
termination
  by (relation "measure (\<lambda>(r, i, x, s). SIZE_INT64 - i)") auto

definition ReadUvarint :: "Reader \<Rightarrow> uint64 outcome \<times> Reader" where
  "ReadUvarint r = ReadUvarint_loop r 0 0 0"

subsection \<open>Fixed-width integers\<close>

text \<open>
  \<open>binary.LittleEndian.Uint16/32/64\<close> of Go's standard library: byte \<open>i\<close> is shifted
  left by \<open>8 * i\<close> and the bytes are combined with \<open>|\<close>. A slice that is too short
  makes the index expression panic (\<open>None\<close>).
\<close>

fun LittleEndian_Uint16 :: "byte list \<Rightarrow> uint16 option" where
  "LittleEndian_Uint16 (b0 # b1 # bs) = Some (ucast b0 OR push_bit 8 (ucast b1))"
| "LittleEndian_Uint16 bs = None"

fun LittleEndian_Uint32 :: "byte list \<Rightarrow> uint32 option" where
  "LittleEndian_Uint32 (b0 # b1 # b2 # b3 # bs) =
     Some (ucast b0 OR push_bit 8 (ucast b1) OR push_bit 16 (ucast b2)
           OR push_bit 24 (ucast b3))"
| "LittleEndian_Uint32 bs = None"

fun LittleEndian_Uint64 :: "byte list \<Rightarrow> uint64 option" where
  "LittleEndian_Uint64 (b0 # b1 # b2 # b3 # b4 # b5 # b6 # b7 # bs) =
     Some (ucast b0 OR push_bit 8 (ucast b1) OR push_bit 16 (ucast b2)
           OR push_bit 24 (ucast b3) OR push_bit 32 (ucast b4) OR push_bit 40 (ucast b5)
           OR push_bit 48 (ucast b6) OR push_bit 56 (ucast b7))"
| "LittleEndian_Uint64 bs = None"

text \<open>\<open>Reader.ReadUint8/16/32/64\<close> (reader.go, lines 78 to 108).\<close>

definition ReadUint8 :: "Reader \<Rightarrow> byte outcome \<times> Reader" where
  "ReadUint8 r =
     (case read r (int SIZE_INT8) of
        (Panic, r') \<Rightarrow> (Panic, r')
      | (Return b (Some err), r') \<Rightarrow> (Return 0 (Some err), r')
      | (Return b None, r') \<Rightarrow>
          (case b of [] \<Rightarrow> (Panic, r') | b0 # bs \<Rightarrow> (Return b0 None, r')))"

definition ReadUint16 :: "Reader \<Rightarrow> uint16 outcome \<times> Reader" where
  "ReadUint16 r =
     (case read r (int SIZE_INT16) of
        (Panic, r') \<Rightarrow> (Panic, r')
      | (Return b (Some err), r') \<Rightarrow> (Return 0 (Some err), r')
      | (Return b None, r') \<Rightarrow>
          (case LittleEndian_Uint16 b of
             None \<Rightarrow> (Panic, r') | Some v \<Rightarrow> (Return v None, r')))"

definition ReadUint32 :: "Reader \<Rightarrow> uint32 outcome \<times> Reader" where
  "ReadUint32 r =
     (case read r (int SIZE_INT32) of
        (Panic, r') \<Rightarrow> (Panic, r')
      | (Return b (Some err), r') \<Rightarrow> (Return 0 (Some err), r')
      | (Return b None, r') \<Rightarrow>
          (case LittleEndian_Uint32 b of
             None \<Rightarrow> (Panic, r') | Some v \<Rightarrow> (Return v None, r')))"

definition ReadUint64 :: "Reader \<Rightarrow> uint64 outcome \<times> Reader" where
  "ReadUint64 r =
     (case read r (int SIZE_INT64) of
        (Panic, r') \<Rightarrow> (Panic, r')
      | (Return b (Some err), r') \<Rightarrow> (Return 0 (Some err), r')
      | (Return b None, r') \<Rightarrow>
          (case LittleEndian_Uint64 b of
             None \<Rightarrow> (Panic, r') | Some v \<Rightarrow> (Return v None, r')))"

text \<open>
  \<open>Reader.ReadFloat64\<close> (reader.go, lines 110 to 116). A \<open>float64\<close> is kept as its
  IEEE-754 bit pattern, so \<open>math.Float64frombits\<close> changes the type and not the bits;
  the value returned with an error is the pattern of \<open>+0.0\<close>.
\<close>

type_synonym float64 = "64 word"

definition Float64frombits :: "uint64 \<Rightarrow> float64" where
  "Float64frombits b = b"

definition ReadFloat64 :: "Reader \<Rightarrow> float64 outcome \<times> Reader" where
  "ReadFloat64 r =
     (case read r (int SIZE_INT64) of
        (Panic, r') \<Rightarrow> (Panic, r')
      | (Return b (Some err), r') \<Rightarrow> (Return 0 (Some err), r')
      | (Return b None, r') \<Rightarrow>
          (case LittleEndian_Uint64 b of
             None \<Rightarrow> (Panic, r') | Some v \<Rightarrow> (Return (Float64frombits v) None, r')))"

subsection \<open>Strings\<close>

text \<open>
  \<open>Reader.ReadStringBytes\<close> and \<open>Reader.ReadString\<close> (reader.go, lines 118 to 138).
  \<open>int(u)\<close> reads the 64 bits of \<open>u\<close> as a signed number (a Go \<open>int\<close> of 64 bits, as
  on every 64-bit platform). A Go string is its bytes, and \<open>string(buf)\<close> copies them.
\<close>

type_synonym gostring = "byte list"

definition ReadStringBytes :: "Reader \<Rightarrow> byte list outcome \<times> Reader" where
  "ReadStringBytes r =
     (case ReadUvarint r of
        (Panic, r1) \<Rightarrow> (Panic, r1)
      | (Return u (Some err), r1) \<Rightarrow> (Return [] (Some err), r1)
      | (Return u None, r1) \<Rightarrow>
          if u = 0 then (Return [] None, r1)
          else (case read r1 (sint u) of
                  (Panic, r2) \<Rightarrow> (Panic, r2)
                | (Return b (Some err), r2) \<Rightarrow> (Return [] (Some err), r2)
                | (Return b None, r2) \<Rightarrow> (Return b None, r2)))"

definition ReadString :: "Reader \<Rightarrow> gostring outcome \<times> Reader" where
  "ReadString r =
     (case ReadStringBytes r of
        (Panic, r') \<Rightarrow> (Panic, r')
      | (Return b (Some err), r') \<Rightarrow> (Return [] (Some err), r')
      | (Return b None, r') \<Rightarrow> (Return b None, r'))"

subsection \<open>Dates\<close>

text \<open>
  A \<open>time.Time\<close> is kept as what \<open>time.Unix\<close> is given, seconds and nanoseconds since
  1970-01-01T00:00:00 UTC as \<open>int64\<close>, and the location it is shown in. Both calls of
  \<open>time.Unix\<close> in reader.go pass 0 nanoseconds, so its normalisation of the nanoseconds
  does nothing.
\<close>

datatype location = Local | UTC

record Time =
  unix_sec :: "64 word"
  unix_nsec :: "64 word"
  loc :: location

definition time_Unix :: "64 word \<Rightarrow> 64 word \<Rightarrow> Time" where
  "time_Unix s ns = \<lparr>unix_sec = s, unix_nsec = ns, loc = Local\<rparr>"

definition in_UTC :: "Time \<Rightarrow> Time" where
  "in_UTC t = t\<lparr>loc := UTC\<rparr>"

text \<open>\<open>DateUint16\<close> (reader.go, lines 20 to 22); \<open>int64(n)\<close> widens without sign.\<close>

definition DateUint16 :: "uint16 \<Rightarrow> Time" where
  "DateUint16 n = in_UTC (time_Unix (ucast n * 86400) 0)"

text \<open>\<open>Reader.ReadDate\<close> (reader.go, lines 140 to 146).\<close>

definition ReadDate :: "Reader \<Rightarrow> Time outcome \<times> Reader" where
  "ReadDate r =
     (case ReadUint16 r of
        (Panic, r') \<Rightarrow> (Panic, r')
      | (Return t (Some err), r') \<Rightarrow> (Return (time_Unix 0 0) (Some err), r')
      | (Return t None, r') \<Rightarrow> (Return (DateUint16 t) None, r'))"

subsection \<open>Lists of strings\<close>

text \<open>
  \<open>Reader.ReadStringList\<close> (reader.go, lines 148 to 164). The loop assigns both
  results of \<open>ReadString\<close> before it tests the error.

  \<open>make([]string, n)\<close> gives \<open>n\<close> empty strings. The runtime's \<open>makeslice\<close> panics
  (\<open>len out of range\<close>) when \<open>n\<close> is negative and when the \<open>n\<close> elements take more than
  \<open>maxAlloc\<close> bytes. A string takes 16 bytes, a pointer and a length, and \<open>maxAlloc\<close> is
  \<open>2 ^ 48\<close>, on linux/amd64 as on the other 64-bit platforms with 48 bits of heap
  address: the call panics for every \<open>n\<close> above \<open>2 ^ 44\<close>. An allocation within the limit
  is taken to succeed.
\<close>

definition sizeof_string :: int where
  "sizeof_string = 16"

definition maxAlloc :: int where
  "maxAlloc = 2 ^ 48"

definition make_strings :: "int \<Rightarrow> gostring list option" where
  "make_strings n =
     (if n < 0 \<or> maxAlloc < sizeof_string * n then None
      else Some (replicate (nat n) []))"

function ReadStringList_loop ::
  "Reader \<Rightarrow> gostring list \<Rightarrow> nat \<Rightarrow> nat \<Rightarrow> gostring list outcome \<times> Reader" where
  "ReadStringList_loop r sList i n =
     (if i < n then
        (if length sList \<le> i then (Panic, r)
         else case ReadString r of
           (Panic, r') \<Rightarrow> (Panic, r')
         | (Return s err, r') \<Rightarrow>
             if err \<noteq> None then (Return (sList[i := s]) err, r')
             else ReadStringList_loop r' (sList[i := s]) (i + 1) n)
      else (Return sList None, r))"
  by pat_completeness auto
termination
  by (relation "measure (\<lambda>(r, sList, i, n). n - i)") auto

definition ReadStringList :: "Reader \<Rightarrow> gostring list outcome \<times> Reader" where
  "ReadStringList r =
     (case ReadUvarint r of
        (Panic, r1) \<Rightarrow> (Panic, r1)
      | (Return u (Some err), r1) \<Rightarrow> (Return [] (Some err), r1)
      | (Return u None, r1) \<Rightarrow>
          if u = 0 then (Return [] None, r1)
          else (let n = sint u in
                case make_strings n of
                  None \<Rightarrow> (Panic, r1)
                | Some sList \<Rightarrow> ReadStringList_loop r1 sList 0 (nat n)))"

text \<open>
  \<open>reads_strings r ss\<close> is the reader left by successive calls of \<open>ReadString\<close>,
  started at \<open>r\<close>, that return the strings \<open>ss\<close> in this order, each with a \<open>nil\<close>
  error; it is \<open>None\<close> when the calls do not go this way. It serves to state what
  \<open>ReadStringList\<close> has decoded so far.
\<close>

fun reads_strings :: "Reader \<Rightarrow> gostring list \<Rightarrow> Reader option" where
  "reads_strings r [] = Some r"
| "reads_strings r (s # ss) =
     (case ReadString r of
        (Return s' None, r') \<Rightarrow> if s' = s then reads_strings r' ss else None
      | (Return s' (Some err), r') \<Rightarrow> None
      | (Panic, r') \<Rightarrow> None)"

subsection \<open>The encoder of unsigned varints\<close>

text \<open>
  Modelled from the spec: the writer that produces the row format is not among the
  sources. This is the standard base-128 little-endian scheme of the glossary: 7 data
  bits per byte, least-significant group first, the high bit set on every byte but the
  last.
\<close>

function PutUvarint :: "uint64 \<Rightarrow> byte list" where
  "PutUvarint x =
     (if x \<ge> 0x80 then (ucast x OR 0x80) # PutUvarint (drop_bit 7 x) else [ucast x])"
  by pat_completeness auto
termination
proof (relation "measure unat")
  show "wf (measure (unat :: uint64 \<Rightarrow> nat))" by simp
next
  fix x :: uint64
  assume "0x80 \<le> x"
  then have "128 \<le> unat x" by (simp add: word_le_nat_alt)
  then have "unat x div 2 ^ 7 < unat x" by simp
  then show "(drop_bit 7 x, x) \<in> measure unat"
    by (simp add: drop_bit_eq_div unat_div)
qed

section \<open>Reversal of dot-separated segments\<close>

definition dot :: byte where
  "dot = 0x2E"

subsection \<open>The reference implementation of the tests\<close>

text \<open>
  \<open>bytes.Split\<close> and \<open>bytes.Join\<close> of Go's standard library, at the separator the test
  file passes, the one byte \<open>'.'\<close>: \<open>Split\<close> cuts at the first index of the separator
  and goes on with what follows it, so the empty input gives one empty segment.
\<close>

fun IndexByte :: "byte list \<Rightarrow> byte \<Rightarrow> nat option" where
  "IndexByte [] c = None"
| "IndexByte (b # bs) c = (if b = c then Some 0 else map_option Suc (IndexByte bs c))"

function Split :: "byte list \<Rightarrow> byte \<Rightarrow> byte list list" where
  "Split s sep =
     (case IndexByte s sep of
        None \<Rightarrow> [s]
      | Some m \<Rightarrow> take m s # Split (drop (m + 1) s) sep)"
  by pat_completeness auto
termination
proof (relation "measure (\<lambda>(s, sep). length s)")
  show "wf (measure (\<lambda>(s :: byte list, sep :: byte). length s))" by simp
next
  fix s :: "byte list" and sep :: byte and m :: nat
  assume "IndexByte s sep = Some m"
  then have "s \<noteq> []" by (cases s) simp_all
  then show "((drop (m + 1) s, sep), (s, sep)) \<in> measure (\<lambda>(s, sep). length s)" by simp
qed

fun Join :: "byte list list \<Rightarrow> byte list \<Rightarrow> byte list" where
  "Join [] sep = []"
| "Join [x] sep = x"
| "Join (x # y # ys) sep = x @ sep @ Join (y # ys) sep"

text \<open>
  \<open>reverseBytesOriginal\<close> (the test file, lines 175 to 184): the loop that swaps
  \<open>a[i]\<close> and \<open>a[l-i-1]\<close> for \<open>i < l/2\<close>, between \<open>Split\<close> and \<open>Join\<close>.
\<close>

function swap_loop :: "'a list \<Rightarrow> nat \<Rightarrow> nat \<Rightarrow> 'a list" where
  "swap_loop a l i =
     (if i < l div 2 then
        swap_loop (a[i := a ! (l - i - 1), l - i - 1 := a ! i]) l (i + 1)
      else a)"
  by pat_completeness auto
termination
  by (relation "measure (\<lambda>(a, l, i). l div 2 - i)") auto

definition reverseBytesOriginal :: "byte list \<Rightarrow> byte list" where
  "reverseBytesOriginal target =
     (let a = Split target dot; l = length a in Join (swap_loop a l 0) [dot])"

subsection \<open>The two flavours of the transform\<close>

text \<open>
  Modelled from the spec: \<open>ReverseMetricInplace\<close> and \<open>ReverseBytesTo\<close> (the spec's
  \<open>ReverseInPlace\<close> and \<open>ReverseTo\<close>) are called by the tests, and the file that
  defines them is not among the sources. Section 4.2 of the spec gives their contract:
  the input is split into segments at every \<open>'.'\<close>, empty segments kept; the output is
  the segments in reverse order, joined by \<open>'.'\<close>. The in-place flavour leaves this in
  the buffer. The copy flavour writes it to the first \<open>len(source)\<close> bytes of the
  destination, which must be that long at least (\<open>None\<close> where it is not: the spec does
  not say what happens then).
\<close>

fun split_from :: "byte list \<Rightarrow> byte list \<Rightarrow> byte list list" where
  "split_from cur [] = [cur]"
| "split_from cur (c # cs) =
     (if c = dot then cur # split_from [] cs else split_from (cur @ [c]) cs)"

definition segments :: "byte list \<Rightarrow> byte list list" where
  "segments s = split_from [] s"

definition rejoin :: "byte list list \<Rightarrow> byte list" where
  "rejoin segs =
     (case segs of [] \<Rightarrow> [] | x # xs \<Rightarrow> foldl (\<lambda>acc seg. acc @ dot # seg) x xs)"

definition ReverseMetricInplace :: "byte list \<Rightarrow> byte list" where
  "ReverseMetricInplace buffer = rejoin (rev (segments buffer))"

definition ReverseBytesTo :: "byte list \<Rightarrow> byte list \<Rightarrow> byte list option" where
  "ReverseBytesTo dst src =
     (if length dst < length src then None
      else Some (rejoin (rev (segments src)) @ drop (length src) dst))"

text \<open>
  The value a list of bytes denotes as a little-endian unsigned integer: byte \<open>i\<close>
  counts \<open>2 ^ (8 * i)\<close> times.
\<close>

fun le_value :: "byte list \<Rightarrow> nat" where
  "le_value [] = 0"
| "le_value (b # bs) = unat b + 256 * le_value bs"

section \<open>Unsigned varints\<close>

text \<open>
  C1. The spec lets \<open>ReadUvarint\<close> fail with \<open>ErrUvarintOverflow\<close> only when more than
  10 groups are consumed or the 10th byte ends the number with a value above 1, so that
  an encoding of 10 groups whose last byte is 1 decodes without error. The loop of
  reader.go stops earlier: its first test, \<open>i >= SIZE_INT64\<close>, compares the number of
  bytes read with the size of a \<open>uint64\<close>, 8, and not with the 10 bytes a varint of 64
  bits may take, which the test \<open>i > 9 || i == 9 && r.buf[i] > 1\<close> further down still
  expects. On the 10 bytes that encode \<open>2 ^ 63\<close> the call reports the overflow after it
  has read 8 of them, and leaves the last two in the source.
\<close>

theorem ReadUvarint_ten_groups_overflow:
  "fst (ReadUvarint (NewReader
      [Chunk [0x80, 0x80, 0x80, 0x80, 0x80, 0x80, 0x80, 0x80, 0x80, 0x01] None]))
     = Return 0 (Some ErrUvarintOverflow)
   \<and> wrapped (snd (ReadUvarint (NewReader
      [Chunk [0x80, 0x80, 0x80, 0x80, 0x80, 0x80, 0x80, 0x80, 0x80, 0x01] None])))
     = [Chunk [0x80, 0x01] None]"
  by (simp add: ReadUvarint_def NewReader_def wrapped_Read_def SIZE_INT64_def)

text \<open>
  C2. The spec states that every \<open>uint64\<close>, encoded in the standard scheme, is decoded
  to itself. The value \<open>2 ^ 56\<close> is encoded in 9 bytes, and \<open>ReadUvarint\<close> answers
  \<open>ErrUvarintOverflow\<close> on them, for the reason given at C1.
\<close>

theorem ReadUvarint_PutUvarint_overflow:
  "PutUvarint 0x100000000000000 = [0x80, 0x80, 0x80, 0x80, 0x80, 0x80, 0x80, 0x80, 0x01]
   \<and> fst (ReadUvarint (NewReader [Chunk (PutUvarint 0x100000000000000) None]))
     = Return 0 (Some ErrUvarintOverflow)"
  by (simp add: ReadUvarint_def NewReader_def wrapped_Read_def SIZE_INT64_def
      drop_bit_eq_div word_le_nat_alt)

section \<open>Fixed-width reads\<close>

subsection \<open>Bytes combined with \<open>OR\<close> and shifts\<close>

lemma unat_byte_less: "unat (b :: byte) < 256"
  using unsigned_less [of b, where 'a = nat] by simp

lemma unat_ucast_byte:
  fixes b :: byte
  assumes "8 \<le> LENGTH('a::len)"
  shows "unat (ucast b :: 'a word) = unat b"
proof -
  have "(2::nat) ^ 8 \<le> 2 ^ LENGTH('a)"
    using assms by (rule power_increasing) simp
  then have "unat b < 2 ^ LENGTH('a)"
    using unat_byte_less [of b] by simp
  then show ?thesis
    by (simp add: unsigned_ucast_eq take_bit_nat_eq_self)
qed

lemma unat_push_bit_byte:
  fixes b :: byte
  assumes "k + 8 \<le> LENGTH('a::len)"
  shows "unat (push_bit k (ucast b :: 'a word)) = 2 ^ k * unat b"
proof -
  have "8 \<le> LENGTH('a)" using assms by simp
  then have u: "unat (ucast b :: 'a word) = unat b" by (rule unat_ucast_byte)
  have "2 ^ k * unat b < 2 ^ k * 2 ^ 8"
    using unat_byte_less [of b] by simp
  also have "\<dots> = (2::nat) ^ (k + 8)" by (simp add: power_add)
  also have "\<dots> \<le> 2 ^ LENGTH('a)"
    using assms by (rule power_increasing) simp
  finally have "2 ^ k * unat b < 2 ^ LENGTH('a)" .
  then have "take_bit LENGTH('a) (push_bit k (unat b)) = 2 ^ k * unat b"
    by (simp add: push_bit_eq_mult take_bit_nat_eq_self mult.commute)
  moreover have "unat (push_bit k (ucast b :: 'a word))
      = take_bit LENGTH('a) (push_bit k (unat (ucast b :: 'a word)))"
    by (rule unsigned_push_bit_eq)
  ultimately show ?thesis
    by (simp only: u)
qed

lemma and_push_bit_zero:
  fixes x :: "'a::len word"
  assumes "unat x < 2 ^ k"
  shows "x AND push_bit k y = 0"
proof -
  have "take_bit k (unat x) = unat x"
    using assms by (simp add: take_bit_nat_eq_self)
  then have "take_bit k x = x"
    by (metis unsigned_take_bit_eq unsigned_word_eqI)
  then have "x AND push_bit k y = take_bit k x AND push_bit k y" by simp
  also have "\<dots> = 0"
    by (rule bit_eqI) (auto simp: bit_simps)
  finally show ?thesis .
qed

lemma unat_or_push_bit_byte:
  fixes x :: "'a::len word" and b :: byte
  assumes "unat x < 2 ^ k" and "k + 8 \<le> LENGTH('a)"
  shows "unat (x OR push_bit k (ucast b)) = unat x + 2 ^ k * unat b"
    and "unat (x OR push_bit k (ucast b)) < 2 ^ (k + 8)"
proof -
  have eq: "x OR push_bit k (ucast b) = x + push_bit k (ucast b)"
    using and_push_bit_zero [OF assms(1)] by (simp add: disjunctive_add_eq_or)
  have p: "unat (push_bit k (ucast b :: 'a word)) = 2 ^ k * unat b"
    using assms(2) by (rule unat_push_bit_byte)
  have "unat b \<le> 255"
    using unat_byte_less [of b] by simp
  then have "2 ^ k * unat b \<le> 2 ^ k * 255"
    by (rule mult_le_mono2)
  with assms(1) have "unat x + 2 ^ k * unat b < 2 ^ k + 2 ^ k * 255"
    by (rule add_less_le_mono)
  also have "\<dots> = (2::nat) ^ (k + 8)" by (simp add: power_add)
  finally have lt: "unat x + 2 ^ k * unat b < 2 ^ (k + 8)" .
  also have "\<dots> \<le> 2 ^ LENGTH('a)"
    using assms(2) by (rule power_increasing) simp
  finally have "unat x + unat (push_bit k (ucast b :: 'a word)) < 2 ^ LENGTH('a)"
    by (simp only: p)
  then have "unat (x + push_bit k (ucast b)) = unat x + unat (push_bit k (ucast b :: 'a word))"
    by (simp only: unat_add_lem)
  then show "unat (x OR push_bit k (ucast b)) = unat x + 2 ^ k * unat b"
    by (simp only: eq p)
  with lt show "unat (x OR push_bit k (ucast b)) < 2 ^ (k + 8)" by simp
qed

lemma LittleEndian_Uint16_value:
  "LittleEndian_Uint16 [b0, b1] = Some v \<Longrightarrow> unat v = le_value [b0, b1]"
  using unat_or_push_bit_byte(1) [of "ucast b0 :: 16 word" 8 b1]
  by (auto simp: unat_ucast_byte unat_byte_less)

lemma LittleEndian_Uint32_value:
  "LittleEndian_Uint32 [b0, b1, b2, b3] = Some v \<Longrightarrow> unat v = le_value [b0, b1, b2, b3]"
proof -
  let ?x0 = "ucast b0 :: 32 word"
  let ?x1 = "?x0 OR push_bit 8 (ucast b1)"
  let ?x2 = "?x1 OR push_bit 16 (ucast b2)"
  let ?x3 = "?x2 OR push_bit 24 (ucast b3)"
  have b0: "unat ?x0 < 2 ^ 8" by (simp add: unat_ucast_byte unat_byte_less)
  have b1: "unat ?x1 < 2 ^ 16"
    using unat_or_push_bit_byte(2) [OF b0, of b1] by simp
  have b2: "unat ?x2 < 2 ^ 24"
    using unat_or_push_bit_byte(2) [OF b1, of b2] by simp
  have "unat ?x3 = unat ?x2 + 2 ^ 24 * unat b3"
    using unat_or_push_bit_byte(1) [OF b2, of b3] by simp
  also have "unat ?x2 = unat ?x1 + 2 ^ 16 * unat b2"
    using unat_or_push_bit_byte(1) [OF b1, of b2] by simp
  also have "unat ?x1 = unat ?x0 + 2 ^ 8 * unat b1"
    using unat_or_push_bit_byte(1) [OF b0, of b1] by simp
  also have "unat ?x0 = unat b0" by (simp add: unat_ucast_byte)
  finally have "unat ?x3 = le_value [b0, b1, b2, b3]" by simp
  moreover assume "LittleEndian_Uint32 [b0, b1, b2, b3] = Some v"
  then have "v = ?x3" by (simp add: or.assoc)
  ultimately show ?thesis by simp
qed

lemma LittleEndian_Uint64_value:
  "LittleEndian_Uint64 [b0, b1, b2, b3, b4, b5, b6, b7] = Some v
   \<Longrightarrow> unat v = le_value [b0, b1, b2, b3, b4, b5, b6, b7]"
proof -
  let ?x0 = "ucast b0 :: 64 word"
  let ?x1 = "?x0 OR push_bit 8 (ucast b1)"
  let ?x2 = "?x1 OR push_bit 16 (ucast b2)"
  let ?x3 = "?x2 OR push_bit 24 (ucast b3)"
  let ?x4 = "?x3 OR push_bit 32 (ucast b4)"
  let ?x5 = "?x4 OR push_bit 40 (ucast b5)"
  let ?x6 = "?x5 OR push_bit 48 (ucast b6)"
  let ?x7 = "?x6 OR push_bit 56 (ucast b7)"
  have b0: "unat ?x0 < 2 ^ 8" by (simp add: unat_ucast_byte unat_byte_less)
  have b1: "unat ?x1 < 2 ^ 16"
    using unat_or_push_bit_byte(2) [OF b0, of b1] by simp
  have b2: "unat ?x2 < 2 ^ 24"
    using unat_or_push_bit_byte(2) [OF b1, of b2] by simp
  have b3: "unat ?x3 < 2 ^ 32"
    using unat_or_push_bit_byte(2) [OF b2, of b3] by simp
  have b4: "unat ?x4 < 2 ^ 40"
    using unat_or_push_bit_byte(2) [OF b3, of b4] by simp
  have b5: "unat ?x5 < 2 ^ 48"
    using unat_or_push_bit_byte(2) [OF b4, of b5] by simp
  have b6: "unat ?x6 < 2 ^ 56"
    using unat_or_push_bit_byte(2) [OF b5, of b6] by simp
  have "unat ?x7 = unat ?x6 + 2 ^ 56 * unat b7"
    using unat_or_push_bit_byte(1) [OF b6, of b7] by simp
  also have "unat ?x6 = unat ?x5 + 2 ^ 48 * unat b6"
    using unat_or_push_bit_byte(1) [OF b5, of b6] by simp
  also have "unat ?x5 = unat ?x4 + 2 ^ 40 * unat b5"
    using unat_or_push_bit_byte(1) [OF b4, of b5] by simp
  also have "unat ?x4 = unat ?x3 + 2 ^ 32 * unat b4"
    using unat_or_push_bit_byte(1) [OF b3, of b4] by simp
  also have "unat ?x3 = unat ?x2 + 2 ^ 24 * unat b3"
    using unat_or_push_bit_byte(1) [OF b2, of b3] by simp
  also have "unat ?x2 = unat ?x1 + 2 ^ 16 * unat b2"
    using unat_or_push_bit_byte(1) [OF b1, of b2] by simp
  also have "unat ?x1 = unat ?x0 + 2 ^ 8 * unat b1"
    using unat_or_push_bit_byte(1) [OF b0, of b1] by simp
  also have "unat ?x0 = unat b0" by (simp add: unat_ucast_byte)
  finally have "unat ?x7 = le_value [b0, b1, b2, b3, b4, b5, b6, b7]" by simp
  moreover assume "LittleEndian_Uint64 [b0, b1, b2, b3, b4, b5, b6, b7] = Some v"
  then have "v = ?x7" by (simp add: or.assoc)
  ultimately show ?thesis by simp
qed

subsection \<open>One call of the source for each read\<close>

lemma src_Read_length: "src_Read src k = (bs, e, src') \<Longrightarrow> length bs \<le> k"
proof (cases src)
  case Nil
  then show "src_Read src k = (bs, e, src') \<Longrightarrow> length bs \<le> k" by auto
next
  case (Cons ev rest)
  then show "src_Read src k = (bs, e, src') \<Longrightarrow> length bs \<le> k"
    by (cases ev) (auto split: if_splits)
qed

lemma read_unfold:
  assumes "0 \<le> want" and "want \<le> int (length (buf r))"
    and "src_Read (wrapped r) (nat want) = (bs, e, src')"
  shows "read r want =
    (if e \<noteq> None then Return [] e
     else if int (length bs) < want then Return [] (Some EOF)
     else Return bs None,
     \<lparr>wrapped = src', buf = bs @ drop (length bs) (buf r)\<rparr>)"
proof -
  have "length bs \<le> nat want"
    using assms(3) by (rule src_Read_length)
  then show ?thesis
    using assms by (auto simp: read_def wrapped_Read_def)
qed

lemma read_short:
  assumes "0 \<le> want" and "want \<le> int (length (buf r))"
    and "src_Read (wrapped r) (nat want) = (bs, e, src')"
    and "e = None \<or> e = Some EOF" and "int (length bs) < want"
  shows "\<exists>r'. read r want = (Return [] (Some EOF), r') \<and> wrapped r' = src'"
  using assms(4,5) by (auto simp: read_unfold [OF assms(1,2,3)])

lemma read_full:
  assumes "0 \<le> want" and "want \<le> int (length (buf r))"
    and "src_Read (wrapped r) (nat want) = (bs, None, src')"
    and "int (length bs) = want"
  shows "\<exists>r'. read r want = (Return bs None, r') \<and> wrapped r' = src'
           \<and> length (buf r') = length (buf r)"
  using assms(2,4) by (auto simp: read_unfold [OF assms(1,2,3)])


lemma list_of_length_1: "length bs = 1 \<Longrightarrow> \<exists>b0. bs = [b0]"
  by (cases bs) auto

lemma list_of_length_2: "length bs = 2 \<Longrightarrow> \<exists>b0 b1. bs = [b0, b1]"
  by (auto simp: numeral_2_eq_2 length_Suc_conv)

lemma list_of_length_4: "length bs = 4 \<Longrightarrow> \<exists>b0 b1 b2 b3. bs = [b0, b1, b2, b3]"
  by (auto simp: eval_nat_numeral length_Suc_conv)

lemma list_of_length_8:
  "length bs = 8 \<Longrightarrow> \<exists>b0 b1 b2 b3 b4 b5 b6 b7. bs = [b0, b1, b2, b3, b4, b5, b6, b7]"
  by (auto simp: eval_nat_numeral length_Suc_conv)

lemma ReadUint8_full:
  assumes "1 \<le> length (buf r)" and "src_Read (wrapped r) 1 = (bs, None, src')"
    and "length bs = 1"
  shows "\<exists>v r'. ReadUint8 r = (Return v None, r') \<and> unat v = le_value bs \<and> wrapped r' = src'"
proof -
  obtain r' where "read r 1 = (Return bs None, r')" and "wrapped r' = src'"
    using read_full [of 1 r bs src'] assms by auto
  moreover obtain b0 where "bs = [b0]"
    using list_of_length_1 [OF assms(3)] by blast
  ultimately show ?thesis
    by (simp add: ReadUint8_def SIZE_INT8_def)
qed

lemma ReadUint16_full:
  assumes "2 \<le> length (buf r)" and "src_Read (wrapped r) 2 = (bs, None, src')"
    and "length bs = 2"
  shows "\<exists>v r'. ReadUint16 r = (Return v None, r') \<and> unat v = le_value bs \<and> wrapped r' = src'"
proof -
  obtain r' where "read r 2 = (Return bs None, r')" and "wrapped r' = src'"
    using read_full [of 2 r bs src'] assms by auto
  moreover obtain b0 b1 where bs: "bs = [b0, b1]"
    using list_of_length_2 [OF assms(3)] by blast
  moreover obtain v where v: "LittleEndian_Uint16 [b0, b1] = Some v" by simp
  moreover note LittleEndian_Uint16_value [OF v]
  ultimately show ?thesis
    by (simp add: ReadUint16_def SIZE_INT16_def del: LittleEndian_Uint16.simps le_value.simps)
qed

lemma ReadUint32_full:
  assumes "4 \<le> length (buf r)" and "src_Read (wrapped r) 4 = (bs, None, src')"
    and "length bs = 4"
  shows "\<exists>v r'. ReadUint32 r = (Return v None, r') \<and> unat v = le_value bs \<and> wrapped r' = src'"
proof -
  obtain r' where "read r 4 = (Return bs None, r')" and "wrapped r' = src'"
    using read_full [of 4 r bs src'] assms by auto
  moreover obtain b0 b1 b2 b3 where bs: "bs = [b0, b1, b2, b3]"
    using list_of_length_4 [OF assms(3)] by blast
  moreover obtain v where v: "LittleEndian_Uint32 [b0, b1, b2, b3] = Some v" by simp
  moreover note LittleEndian_Uint32_value [OF v]
  ultimately show ?thesis
    by (simp add: ReadUint32_def SIZE_INT32_def del: LittleEndian_Uint32.simps le_value.simps)
qed

lemma ReadUint64_full:
  assumes "8 \<le> length (buf r)" and "src_Read (wrapped r) 8 = (bs, None, src')"
    and "length bs = 8"
  shows "\<exists>v r'. ReadUint64 r = (Return v None, r') \<and> unat v = le_value bs \<and> wrapped r' = src'"
proof -
  obtain r' where "read r 8 = (Return bs None, r')" and "wrapped r' = src'"
    using read_full [of 8 r bs src'] assms by auto
  moreover obtain b0 b1 b2 b3 b4 b5 b6 b7 where bs: "bs = [b0, b1, b2, b3, b4, b5, b6, b7]"
    using list_of_length_8 [OF assms(3)] by blast
  moreover obtain v where v: "LittleEndian_Uint64 [b0, b1, b2, b3, b4, b5, b6, b7] = Some v"
    by simp
  moreover note LittleEndian_Uint64_value [OF v]
  ultimately show ?thesis
    by (simp add: ReadUint64_def SIZE_INT64_def del: LittleEndian_Uint64.simps le_value.simps)
qed

lemma ReadUint8_short:
  assumes "1 \<le> length (buf r)" and "src_Read (wrapped r) 1 = (bs, e, src')"
    and "e = None \<or> e = Some EOF" and "length bs < 1"
  shows "\<exists>r'. ReadUint8 r = (Return 0 (Some EOF), r') \<and> wrapped r' = src'"
  using read_short [of 1 r bs e src'] assms by (auto simp: ReadUint8_def SIZE_INT8_def)

lemma ReadUint16_short:
  assumes "2 \<le> length (buf r)" and "src_Read (wrapped r) 2 = (bs, e, src')"
    and "e = None \<or> e = Some EOF" and "length bs < 2"
  shows "\<exists>r'. ReadUint16 r = (Return 0 (Some EOF), r') \<and> wrapped r' = src'"
  using read_short [of 2 r bs e src'] assms by (auto simp: ReadUint16_def SIZE_INT16_def)

lemma ReadUint32_short:
  assumes "4 \<le> length (buf r)" and "src_Read (wrapped r) 4 = (bs, e, src')"
    and "e = None \<or> e = Some EOF" and "length bs < 4"
  shows "\<exists>r'. ReadUint32 r = (Return 0 (Some EOF), r') \<and> wrapped r' = src'"
  using read_short [of 4 r bs e src'] assms by (auto simp: ReadUint32_def SIZE_INT32_def)

lemma ReadUint64_short:
  assumes "8 \<le> length (buf r)" and "src_Read (wrapped r) 8 = (bs, e, src')"
    and "e = None \<or> e = Some EOF" and "length bs < 8"
  shows "\<exists>r'. ReadUint64 r = (Return 0 (Some EOF), r') \<and> wrapped r' = src'"
  using read_short [of 8 r bs e src'] assms by (auto simp: ReadUint64_def SIZE_INT64_def)

lemma ReadFloat64_short:
  assumes "8 \<le> length (buf r)" and "src_Read (wrapped r) 8 = (bs, e, src')"
    and "e = None \<or> e = Some EOF" and "length bs < 8"
  shows "\<exists>r'. ReadFloat64 r = (Return 0 (Some EOF), r') \<and> wrapped r' = src'"
  using read_short [of 8 r bs e src'] assms by (auto simp: ReadFloat64_def SIZE_INT64_def)

lemma ReadDate_short:
  assumes "2 \<le> length (buf r)" and "src_Read (wrapped r) 2 = (bs, e, src')"
    and "e = None \<or> e = Some EOF" and "length bs < 2"
  shows "\<exists>r'. ReadDate r = (Return (time_Unix 0 0) (Some EOF), r') \<and> wrapped r' = src'"
  using ReadUint16_short [OF assms] by (auto simp: ReadDate_def)

lemma ReadStringBytes_short:
  assumes "ReadUvarint r = (Return u None, r1)" and "u \<noteq> 0"
    and "0 \<le> sint u" and "sint u \<le> int (length (buf r1))"
    and "src_Read (wrapped r1) (nat (sint u)) = (bs, e, src')"
    and "e = None \<or> e = Some EOF" and "int (length bs) < sint u"
  shows "\<exists>r'. ReadStringBytes r = (Return [] (Some EOF), r') \<and> wrapped r' = src'"
  using read_short [OF assms(3,4,5,6,7)] assms(1,2) by (auto simp: ReadStringBytes_def)

lemma read_error:
  assumes "0 \<le> want" and "want \<le> int (length (buf r))"
    and "src_Read (wrapped r) (nat want) = (bs, Some err, src')"
  shows "\<exists>r'. read r want = (Return [] (Some err), r') \<and> wrapped r' = src'"
  by (simp add: read_unfold [OF assms])

lemma ReadUint8_error:
  assumes "1 \<le> length (buf r)" and "src_Read (wrapped r) 1 = (bs, Some err, src')"
  shows "\<exists>r'. ReadUint8 r = (Return 0 (Some err), r') \<and> wrapped r' = src'"
  using read_error [of 1 r bs err src'] assms by (auto simp: ReadUint8_def SIZE_INT8_def)

lemma ReadUint16_error:
  assumes "2 \<le> length (buf r)" and "src_Read (wrapped r) 2 = (bs, Some err, src')"
  shows "\<exists>r'. ReadUint16 r = (Return 0 (Some err), r') \<and> wrapped r' = src'"
  using read_error [of 2 r bs err src'] assms by (auto simp: ReadUint16_def SIZE_INT16_def)

lemma ReadUint32_error:
  assumes "4 \<le> length (buf r)" and "src_Read (wrapped r) 4 = (bs, Some err, src')"
  shows "\<exists>r'. ReadUint32 r = (Return 0 (Some err), r') \<and> wrapped r' = src'"
  using read_error [of 4 r bs err src'] assms by (auto simp: ReadUint32_def SIZE_INT32_def)

lemma ReadUint64_error:
  assumes "8 \<le> length (buf r)" and "src_Read (wrapped r) 8 = (bs, Some err, src')"
  shows "\<exists>r'. ReadUint64 r = (Return 0 (Some err), r') \<and> wrapped r' = src'"
  using read_error [of 8 r bs err src'] assms by (auto simp: ReadUint64_def SIZE_INT64_def)

lemmas reader_eval = NewReader_def read_def wrapped_Read_def
  SIZE_INT8_def SIZE_INT16_def SIZE_INT32_def SIZE_INT64_def

text \<open>
  C7. The spec lets \<open>ReadUint8/16/32/64\<close> return the little-endian number for every
  source that provides the 1, 2, 4 or 8 bytes. \<open>read\<close> tests the error of the source
  before it looks at the number of bytes: a source that hands over the 4 bytes together
  with \<open>io.EOF\<close>, as an \<open>io.Reader\<close> may at the end of its input, makes \<open>ReadUint32\<close>
  fail with \<open>io.EOF\<close>, and the bytes are dropped.
\<close>

theorem ReadUint32_bytes_with_EOF_counterexample:
  "src_Read [Chunk [0x78, 0x56, 0x34, 0x12] (Some EOF)] 4
     = ([0x78, 0x56, 0x34, 0x12], Some EOF, [])
   \<and> fst (ReadUint32 (NewReader [Chunk [0x78, 0x56, 0x34, 0x12] (Some EOF)]))
     = Return 0 (Some EOF)"
  by (simp add: ReadUint32_def reader_eval)

text \<open>
  C7, as amended. \<open>ReadUint8/16/32/64\<close> makes one call of the source, for 1, 2, 4 or
  8 bytes, and the source is left where this call left it. When the call delivers all
  the bytes asked for and no error, the result is the number whose value is the sum of
  \<open>b\<^sub>i * 2 ^ (8 * i)\<close> over these bytes, so exactly these bytes are consumed. When the
  call delivers fewer bytes and no error, the result is \<open>io.EOF\<close>, the spec's
  \<open>Truncated\<close>. When the call reports an error, the result is that error, whatever
  bytes came with it; a source at the end of its input reports \<open>io.EOF\<close>.
\<close>

theorem ReadUint_little_endian:
  assumes "8 \<le> length (buf r)"
  shows
   "(src_Read (wrapped r) 1 = (bs, None, src') \<and> length bs = 1 \<longrightarrow>
       (\<exists>v r'. ReadUint8 r = (Return v None, r') \<and> unat v = le_value bs \<and> wrapped r' = src'))
  \<and> (src_Read (wrapped r) 2 = (bs, None, src') \<and> length bs = 2 \<longrightarrow>
       (\<exists>v r'. ReadUint16 r = (Return v None, r') \<and> unat v = le_value bs \<and> wrapped r' = src'))
  \<and> (src_Read (wrapped r) 4 = (bs, None, src') \<and> length bs = 4 \<longrightarrow>
       (\<exists>v r'. ReadUint32 r = (Return v None, r') \<and> unat v = le_value bs \<and> wrapped r' = src'))
  \<and> (src_Read (wrapped r) 8 = (bs, None, src') \<and> length bs = 8 \<longrightarrow>
       (\<exists>v r'. ReadUint64 r = (Return v None, r') \<and> unat v = le_value bs \<and> wrapped r' = src'))
  \<and> (src_Read (wrapped r) 1 = (bs, None, src') \<and> length bs < 1 \<longrightarrow>
       (\<exists>r'. ReadUint8 r = (Return 0 (Some EOF), r') \<and> wrapped r' = src'))
  \<and> (src_Read (wrapped r) 2 = (bs, None, src') \<and> length bs < 2 \<longrightarrow>
       (\<exists>r'. ReadUint16 r = (Return 0 (Some EOF), r') \<and> wrapped r' = src'))
  \<and> (src_Read (wrapped r) 4 = (bs, None, src') \<and> length bs < 4 \<longrightarrow>
       (\<exists>r'. ReadUint32 r = (Return 0 (Some EOF), r') \<and> wrapped r' = src'))
  \<and> (src_Read (wrapped r) 8 = (bs, None, src') \<and> length bs < 8 \<longrightarrow>
       (\<exists>r'. ReadUint64 r = (Return 0 (Some EOF), r') \<and> wrapped r' = src'))
  \<and> (src_Read (wrapped r) 1 = (bs, Some err, src') \<longrightarrow>
       (\<exists>r'. ReadUint8 r = (Return 0 (Some err), r') \<and> wrapped r' = src'))
  \<and> (src_Read (wrapped r) 2 = (bs, Some err, src') \<longrightarrow>
       (\<exists>r'. ReadUint16 r = (Return 0 (Some err), r') \<and> wrapped r' = src'))
  \<and> (src_Read (wrapped r) 4 = (bs, Some err, src') \<longrightarrow>
       (\<exists>r'. ReadUint32 r = (Return 0 (Some err), r') \<and> wrapped r' = src'))
  \<and> (src_Read (wrapped r) 8 = (bs, Some err, src') \<longrightarrow>
       (\<exists>r'. ReadUint64 r = (Return 0 (Some err), r') \<and> wrapped r' = src'))"
proof -
  have l: "1 \<le> length (buf r)" "2 \<le> length (buf r)" "4 \<le> length (buf r)"
    using assms by simp_all
  have n: "(None :: error option) = None \<or> (None :: error option) = Some EOF" by simp
  show ?thesis
    using ReadUint8_full [OF l(1), of bs src'] ReadUint16_full [OF l(2), of bs src']
      ReadUint32_full [OF l(3), of bs src'] ReadUint64_full [OF assms, of bs src']
      ReadUint8_short [OF l(1) _ n, of bs src'] ReadUint16_short [OF l(2) _ n, of bs src']
      ReadUint32_short [OF l(3) _ n, of bs src'] ReadUint64_short [OF assms _ n, of bs src']
      ReadUint8_error [OF l(1), of bs err src'] ReadUint16_error [OF l(2), of bs err src']
      ReadUint32_error [OF l(3), of bs err src'] ReadUint64_error [OF assms, of bs err src']
    by blast
qed

theorem ReadUint_little_endian_witness:
  "8 \<le> length (buf (NewReader [Chunk [0x78, 0x56, 0x34, 0x12, 0xEF, 0xCD, 0xAB, 0x90, 0x11] None]))
   \<and> src_Read [Chunk [0x78, 0x56, 0x34, 0x12, 0xEF, 0xCD, 0xAB, 0x90, 0x11] None] 4
       = ([0x78, 0x56, 0x34, 0x12], None, [Chunk [0xEF, 0xCD, 0xAB, 0x90, 0x11] None])
   \<and> fst (ReadUint8 (NewReader [Chunk [0x78, 0x56, 0x34, 0x12, 0xEF, 0xCD, 0xAB, 0x90, 0x11] None]))
       = Return 0x78 None
   \<and> fst (ReadUint16 (NewReader [Chunk [0x78, 0x56, 0x34, 0x12, 0xEF, 0xCD, 0xAB, 0x90, 0x11] None]))
       = Return 0x5678 None
   \<and> fst (ReadUint32 (NewReader [Chunk [0x78, 0x56, 0x34, 0x12, 0xEF, 0xCD, 0xAB, 0x90, 0x11] None]))
       = Return 0x12345678 None
   \<and> wrapped (snd (ReadUint32 (NewReader
         [Chunk [0x78, 0x56, 0x34, 0x12, 0xEF, 0xCD, 0xAB, 0x90, 0x11] None])))
       = [Chunk [0xEF, 0xCD, 0xAB, 0x90, 0x11] None]
   \<and> fst (ReadUint64 (NewReader [Chunk [0x78, 0x56, 0x34, 0x12, 0xEF, 0xCD, 0xAB, 0x90, 0x11] None]))
       = Return 0x90ABCDEF12345678 None
   \<and> le_value [0x78, 0x56, 0x34, 0x12] = 0x12345678
   \<and> src_Read [Chunk [0x78, 0x56] None] 4 = ([0x78, 0x56], None, [])
   \<and> fst (ReadUint32 (NewReader [Chunk [0x78, 0x56] None])) = Return 0 (Some EOF)
   \<and> src_Read [Chunk [0x78, 0x56] (Some (SourceError 5)), Chunk [0x34, 0x12] None] 4
       = ([0x78, 0x56], Some (SourceError 5), [Chunk [0x34, 0x12] None])
   \<and> fst (ReadUint32 (NewReader
         [Chunk [0x78, 0x56] (Some (SourceError 5)), Chunk [0x34, 0x12] None]))
       = Return 0 (Some (SourceError 5))
   \<and> wrapped (snd (ReadUint32 (NewReader
         [Chunk [0x78, 0x56] (Some (SourceError 5)), Chunk [0x34, 0x12] None])))
       = [Chunk [0x34, 0x12] None]"
  using ReadUint_little_endian
    [of "NewReader [Chunk [0x78, 0x56, 0x34, 0x12, 0xEF, 0xCD, 0xAB, 0x90, 0x11] None]"
        "[0x78, 0x56, 0x34, 0x12]" "[Chunk [0xEF, 0xCD, 0xAB, 0x90, 0x11] None]"]
    ReadUint_little_endian
    [of "NewReader [Chunk [0x78, 0x56] None]" "[0x78, 0x56]" "[]"]
    ReadUint_little_endian
    [of "NewReader [Chunk [0x78, 0x56] (Some (SourceError 5)), Chunk [0x34, 0x12] None]"
        "[0x78, 0x56]" "[Chunk [0x34, 0x12] None]" "SourceError 5"]
  by (simp add: ReadUint8_def ReadUint16_def ReadUint32_def ReadUint64_def reader_eval)

text \<open>
  C6. Every fixed-size read makes one call of the source. When that call returns fewer
  bytes than were asked for and no error, the read fails with \<open>io.EOF\<close> at once: the
  source is left as that one call left it, so no further call is made to fetch the rest.
  This holds for \<open>read\<close> itself, for \<open>ReadUint8/16/32/64\<close>, \<open>ReadFloat64\<close> and
  \<open>ReadDate\<close>, and for the payload of \<open>ReadStringBytes\<close> once the length is read.
\<close>

theorem short_read_fails_at_once:
  assumes "8 \<le> length (buf r)"
  shows
   "(0 \<le> want \<and> want \<le> int (length (buf r))
       \<and> src_Read (wrapped r) (nat want) = (bs, None, src') \<and> int (length bs) < want \<longrightarrow>
       (\<exists>r'. read r want = (Return [] (Some EOF), r') \<and> wrapped r' = src'))
  \<and> (src_Read (wrapped r) 1 = (bs, None, src') \<and> length bs < 1 \<longrightarrow>
       (\<exists>r'. ReadUint8 r = (Return 0 (Some EOF), r') \<and> wrapped r' = src'))
  \<and> (src_Read (wrapped r) 2 = (bs, None, src') \<and> length bs < 2 \<longrightarrow>
       (\<exists>r'. ReadUint16 r = (Return 0 (Some EOF), r') \<and> wrapped r' = src'))
  \<and> (src_Read (wrapped r) 4 = (bs, None, src') \<and> length bs < 4 \<longrightarrow>
       (\<exists>r'. ReadUint32 r = (Return 0 (Some EOF), r') \<and> wrapped r' = src'))
  \<and> (src_Read (wrapped r) 8 = (bs, None, src') \<and> length bs < 8 \<longrightarrow>
       (\<exists>r'. ReadUint64 r = (Return 0 (Some EOF), r') \<and> wrapped r' = src'))
  \<and> (src_Read (wrapped r) 8 = (bs, None, src') \<and> length bs < 8 \<longrightarrow>
       (\<exists>r'. ReadFloat64 r = (Return 0 (Some EOF), r') \<and> wrapped r' = src'))
  \<and> (src_Read (wrapped r) 2 = (bs, None, src') \<and> length bs < 2 \<longrightarrow>
       (\<exists>r'. ReadDate r = (Return (time_Unix 0 0) (Some EOF), r') \<and> wrapped r' = src'))
  \<and> (ReadUvarint r = (Return u None, r1) \<and> u \<noteq> 0
       \<and> 0 \<le> sint u \<and> sint u \<le> int (length (buf r1))
       \<and> src_Read (wrapped r1) (nat (sint u)) = (bs, None, src')
       \<and> int (length bs) < sint u \<longrightarrow>
       (\<exists>r'. ReadStringBytes r = (Return [] (Some EOF), r') \<and> wrapped r' = src'))"
proof -
  have l: "1 \<le> length (buf r)" "2 \<le> length (buf r)" "4 \<le> length (buf r)"
    using assms by simp_all
  have n: "(None :: error option) = None \<or> (None :: error option) = Some EOF" by simp
  show ?thesis
    using read_short [of want r bs None src']
      ReadUint8_short [OF l(1) _ n, of bs src'] ReadUint16_short [OF l(2) _ n, of bs src']
      ReadUint32_short [OF l(3) _ n, of bs src'] ReadUint64_short [OF assms _ n, of bs src']
      ReadFloat64_short [OF assms _ n, of bs src'] ReadDate_short [OF l(2) _ n, of bs src']
      ReadStringBytes_short [of r u r1 bs None src']
    by blast
qed

theorem short_read_fails_at_once_witness:
  "8 \<le> length (buf (NewReader [Chunk [0x01] None, Chunk [0x02, 0x03, 0x04, 0x05, 0x06, 0x07, 0x08] None]))
   \<and> src_Read [Chunk [0x01] None, Chunk [0x02, 0x03, 0x04, 0x05, 0x06, 0x07, 0x08] None] 4
       = ([0x01], None, [Chunk [0x02, 0x03, 0x04, 0x05, 0x06, 0x07, 0x08] None])
   \<and> length [0x01 :: byte] < 4
   \<and> fst (ReadUint32 (NewReader
         [Chunk [0x01] None, Chunk [0x02, 0x03, 0x04, 0x05, 0x06, 0x07, 0x08] None]))
       = Return 0 (Some EOF)
   \<and> wrapped (snd (ReadUint32 (NewReader
         [Chunk [0x01] None, Chunk [0x02, 0x03, 0x04, 0x05, 0x06, 0x07, 0x08] None])))
       = [Chunk [0x02, 0x03, 0x04, 0x05, 0x06, 0x07, 0x08] None]
   \<and> fst (ReadUint16 (NewReader
         [Chunk [0x01] None, Chunk [0x02, 0x03, 0x04, 0x05, 0x06, 0x07, 0x08] None]))
       = Return 0 (Some EOF)
   \<and> fst (ReadUint64 (NewReader
         [Chunk [0x01] None, Chunk [0x02, 0x03, 0x04, 0x05, 0x06, 0x07, 0x08] None]))
       = Return 0 (Some EOF)
   \<and> fst (ReadFloat64 (NewReader
         [Chunk [0x01] None, Chunk [0x02, 0x03, 0x04, 0x05, 0x06, 0x07, 0x08] None]))
       = Return 0 (Some EOF)
   \<and> fst (ReadDate (NewReader
         [Chunk [0x01] None, Chunk [0x02, 0x03, 0x04, 0x05, 0x06, 0x07, 0x08] None]))
       = Return (time_Unix 0 0) (Some EOF)
   \<and> src_Read [Chunk [] None, Chunk [0x02] None] 1 = ([], None, [Chunk [0x02] None])
   \<and> fst (ReadUint8 (NewReader [Chunk [] None, Chunk [0x02] None])) = Return 0 (Some EOF)
   \<and> ReadUvarint (NewReader [Chunk [0x03, 0x61] None, Chunk [0x62, 0x63] None])
       = (Return 3 None,
          snd (ReadUvarint (NewReader [Chunk [0x03, 0x61] None, Chunk [0x62, 0x63] None])))
   \<and> fst (ReadStringBytes (NewReader [Chunk [0x03, 0x61] None, Chunk [0x62, 0x63] None]))
       = Return [] (Some EOF)
   \<and> wrapped (snd (ReadStringBytes (NewReader
         [Chunk [0x03, 0x61] None, Chunk [0x62, 0x63] None])))
       = [Chunk [0x62, 0x63] None]"
  using short_read_fails_at_once
    [of "NewReader [Chunk [0x01] None, Chunk [0x02, 0x03, 0x04, 0x05, 0x06, 0x07, 0x08] None]"
        4 "[0x01]" "[Chunk [0x02, 0x03, 0x04, 0x05, 0x06, 0x07, 0x08] None]"]
    short_read_fails_at_once
    [of "NewReader [Chunk [] None, Chunk [0x02] None]" 1 "[]" "[Chunk [0x02] None]"]
    short_read_fails_at_once
    [of "NewReader [Chunk [0x03, 0x61] None, Chunk [0x62, 0x63] None]" 3 "[0x61]"
        "[Chunk [0x62, 0x63] None]" 3
        "snd (ReadUvarint (NewReader [Chunk [0x03, 0x61] None, Chunk [0x62, 0x63] None]))"]
  by (simp add: ReadUint8_def ReadUint16_def ReadUint32_def ReadUint64_def ReadFloat64_def
      ReadDate_def ReadStringBytes_def ReadUvarint_def reader_eval)

section \<open>Reads beyond the scratch buffer\<close>

text \<open>\<open>int(u)\<close> for a \<open>uint64\<close>: the value itself below \<open>2 ^ 63\<close>, negative from there on.\<close>

lemma sint_uint64_small:
  fixes u :: uint64
  assumes "uint u < 2 ^ 63"
  shows "sint u = uint u"
proof -
  have "- (2 ^ 63) \<le> (0::int)" by simp
  also have "0 \<le> uint u" by simp
  finally have "signed_take_bit 63 (uint u) = uint u"
    using assms by (rule signed_take_bit_int_eq_self)
  then show ?thesis
    by (simp add: sint_uint)
qed

lemma sint_uint64_large:
  fixes u :: uint64
  assumes "2 ^ 63 \<le> uint u"
  shows "sint u < 0"
proof -
  have s: "sint u = signed_take_bit 63 (uint u)"
    by (simp add: sint_uint)
  have "sint u \<le> uint u - 2 ^ Suc 63"
    unfolding s using assms by (rule signed_take_bit_int_less_eq)
  also have "uint u - 2 ^ Suc 63 < 0"
    using uint_lt2p [of u] by simp
  finally show ?thesis .
qed

lemma nat_sint_uint64:
  fixes u :: uint64
  assumes "0 \<le> sint u"
  shows "nat (sint u) = unat u"
proof (cases "uint u < 2 ^ 63")
  case True
  then have "sint u = uint u" by (rule sint_uint64_small)
  then show ?thesis
    by (simp only: unat_eq_nat_uint)
next
  case False
  then have "2 ^ 63 \<le> uint u" by simp
  then have "sint u < 0" by (rule sint_uint64_large)
  with assms show ?thesis by simp
qed

lemma int_of_uint64_out_of_range:
  fixes u :: uint64
  shows "(sint u < 0 \<or> 65536 < sint u) \<longleftrightarrow> 65536 < unat u"
proof (cases "uint u < 2 ^ 63")
  case True
  then have "sint u = uint u" by (rule sint_uint64_small)
  moreover have "uint u = int (unat u)"
    by (rule uint_nat)
  then have "(65536 < uint u) = (65536 < unat u)"
    by arith
  ultimately show ?thesis by simp
next
  case False
  then have ge: "2 ^ 63 \<le> uint u" by simp
  then have neg: "sint u < 0" by (rule sint_uint64_large)
  have "(65536::int) < 2 ^ 63" by simp
  then have "65536 < uint u" using ge by (rule less_le_trans)
  moreover have "uint u = int (unat u)" by (rule uint_nat)
  ultimately have "65536 < unat u" by arith
  with neg show ?thesis by simp
qed

lemma wrapped_Read_length:
  assumes "lo \<le> hi" and "hi \<le> length (buf r)" and "wrapped_Read r lo hi = (n, e, r')"
  shows "length (buf r') = length (buf r)"
proof -
  obtain bs e' src' where s: "src_Read (wrapped r) (hi - lo) = (bs, e', src')"
    by (cases "src_Read (wrapped r) (hi - lo)") auto
  then have "length bs \<le> hi - lo" by (rule src_Read_length)
  then show ?thesis
    using assms s by (auto simp: wrapped_Read_def)
qed

lemma ReadUvarint_loop_length:
  "length (buf (snd (ReadUvarint_loop r i x s))) = length (buf r)"
proof (induction r i x s rule: ReadUvarint_loop.induct)
  case (1 r i x s)
  show ?case
  proof (cases "i \<ge> SIZE_INT64 \<or> length (buf r) < i + 1")
    case True
    then show ?thesis by auto
  next
    case False
    obtain n e r' where w: "wrapped_Read r i (i + 1) = (n, e, r')"
      by (cases "wrapped_Read r i (i + 1)") auto
    have l: "length (buf r') = length (buf r)"
      using False w wrapped_Read_length [of i "i + 1" r n e r'] by simp
    show ?thesis
      using False w l "1.IH"
      by (simp del: ReadUvarint_loop.simps add: ReadUvarint_loop.simps [of r i x s])
  qed
qed

lemma ReadUvarint_length:
  "ReadUvarint r = (res, r1) \<Longrightarrow> length (buf r1) = length (buf r)"
  using ReadUvarint_loop_length [of r 0 0 0] by (simp add: ReadUvarint_def)

text \<open>
  C3. The spec asks that a length-prefixed read whose declared length exceeds the 64 KiB
  of the scratch buffer be rejected with \<open>BufferTooSmall\<close> or served from a larger
  allocation, and never panic. reader.go has neither: \<open>read\<close> slices the buffer of
  65536 bytes with the length it is given. A string that declares 65537 bytes panics.
\<close>

theorem ReadStringBytes_over_capacity_counterexample:
  "fst (ReadStringBytes (NewReader [Chunk [0x81, 0x80, 0x04] None])) = Panic"
  by (simp add: ReadStringBytes_def ReadUvarint_def reader_eval)

lemma ReadStringBytes_Panic_iff:
  assumes "length (buf r) = 65536" and "ReadUvarint r = (Return u None, r1)"
  shows "(fst (ReadStringBytes r) = Panic \<longleftrightarrow> 65536 < unat u)
    \<and> (65536 < unat u \<longrightarrow> snd (ReadStringBytes r) = r1)"
proof -
  have l: "int (length (buf r1)) = 65536"
    using ReadUvarint_length [OF assms(2)] assms(1) by simp
  have z: "u = 0 \<Longrightarrow> \<not> 65536 < unat u" by simp
  note c = int_of_uint64_out_of_range [of u]
  show ?thesis
  proof (cases "sint u < 0 \<or> 65536 < sint u")
    case True
    then have "read r1 (sint u) = (Panic, r1)"
      using l by (auto simp: read_def)
    moreover have "u \<noteq> 0" using True c z by blast
    ultimately show ?thesis
      using True c assms(2) by (simp add: ReadStringBytes_def)
  next
    case False
    then have "fst (read r1 (sint u)) \<noteq> Panic"
      using l by (auto simp: read_def split: prod.splits)
    then have "fst (ReadStringBytes r) \<noteq> Panic"
      using assms(2)
      by (auto simp: ReadStringBytes_def split: prod.splits outcome.splits option.splits)
    then show ?thesis
      using False c by simp
  qed
qed

lemma ReadStringBytes_served:
  assumes "length (buf r) = 65536" and "ReadUvarint r = (Return u None, r1)"
    and "u \<noteq> 0" and "unat u \<le> 65536"
    and "src_Read (wrapped r1) (unat u) = (bs, e, src')"
  shows "ReadStringBytes r =
    (if e \<noteq> None then Return [] e
     else if length bs < unat u then Return [] (Some EOF)
     else Return bs None,
     \<lparr>wrapped = src', buf = bs @ drop (length bs) (buf r1)\<rparr>)"
proof -
  have l: "length (buf r1) = 65536"
    using ReadUvarint_length [OF assms(2)] assms(1) by simp
  have "\<not> (sint u < 0 \<or> 65536 < sint u)"
    using assms(4) by (simp only: int_of_uint64_out_of_range)
  then have w: "0 \<le> sint u" "sint u \<le> int (length (buf r1))"
    using l by simp_all
  have n: "nat (sint u) = unat u" using w(1) by (rule nat_sint_uint64)
  have "int (nat (sint u)) = sint u" using w(1) by (rule nat_0_le)
  then have i: "sint u = int (unat u)" by (simp only: n)
  have s: "src_Read (wrapped r1) (nat (sint u)) = (bs, e, src')"
    using assms(5) by (simp only: n)
  have c: "(int (length bs) < sint u) = (length bs < unat u)"
    by (simp only: i of_nat_less_iff)
  have "read r1 (sint u) =
    (if e \<noteq> None then Return [] e
     else if length bs < unat u then Return [] (Some EOF)
     else Return bs None,
     \<lparr>wrapped = src', buf = bs @ drop (length bs) (buf r1)\<rparr>)"
    by (simp only: read_unfold [OF w s] c)
  then show ?thesis
    using assms(2,3) by (cases e) (simp_all add: ReadStringBytes_def)
qed

text \<open>
  C3, as amended. Once \<open>ReadUvarint\<close> has returned the declared length \<open>u\<close>,
  \<open>ReadStringBytes\<close> on a reader made by \<open>NewReader\<close> panics exactly when \<open>u\<close> exceeds
  65536, and then before it calls the source again. A declared length of 0 returns the
  empty sequence without a call of the source. Every declared length from 1 to 65536 is
  served from the scratch buffer by one call of the source for that many bytes: the
  bytes delivered are written to the start of the buffer; the call returns the error of
  the source if it reports one, \<open>io.EOF\<close> if fewer bytes came with no error, and
  otherwise the bytes.
\<close>

theorem ReadStringBytes_panics_beyond_capacity:
  assumes "length (buf r) = 65536" and "ReadUvarint r = (Return u None, r1)"
  shows "(fst (ReadStringBytes r) = Panic \<longleftrightarrow> 65536 < unat u)
    \<and> (65536 < unat u \<longrightarrow> snd (ReadStringBytes r) = r1)
    \<and> (u = 0 \<longrightarrow> ReadStringBytes r = (Return [] None, r1))
    \<and> (u \<noteq> 0 \<and> unat u \<le> 65536 \<and> src_Read (wrapped r1) (unat u) = (bs, e, src') \<longrightarrow>
         ReadStringBytes r =
           (if e \<noteq> None then Return [] e
            else if length bs < unat u then Return [] (Some EOF)
            else Return bs None,
            \<lparr>wrapped = src', buf = bs @ drop (length bs) (buf r1)\<rparr>))"
proof -
  have "u = 0 \<Longrightarrow> ReadStringBytes r = (Return [] None, r1)"
    using assms(2) by (simp add: ReadStringBytes_def)
  then show ?thesis
    using ReadStringBytes_Panic_iff [OF assms] ReadStringBytes_served [OF assms, of bs e src']
    by blast
qed

theorem ReadStringBytes_panics_beyond_capacity_witness:
  "length (buf (NewReader [Chunk [0x81, 0x80, 0x04] None])) = 65536
   \<and> ReadUvarint (NewReader [Chunk [0x81, 0x80, 0x04] None])
       = (Return 65537 None, \<lparr>wrapped = [], buf = 0x81 # 0x80 # 0x04 # replicate 65533 0\<rparr>)
   \<and> (65536::nat) < unat (65537 :: uint64)
   \<and> fst (ReadStringBytes (NewReader [Chunk [0x81, 0x80, 0x04] None])) = Panic
   \<and> snd (ReadStringBytes (NewReader [Chunk [0x81, 0x80, 0x04] None]))
       = \<lparr>wrapped = [], buf = 0x81 # 0x80 # 0x04 # replicate 65533 0\<rparr>
   \<and> length (buf (NewReader [Chunk [0x02, 0x61, 0x62, 0x63] None])) = 65536
   \<and> ReadUvarint (NewReader [Chunk [0x02, 0x61, 0x62, 0x63] None])
       = (Return 2 None, \<lparr>wrapped = [Chunk [0x61, 0x62, 0x63] None], buf = 0x02 # replicate 65535 0\<rparr>)
   \<and> (2 :: uint64) \<noteq> 0 \<and> unat (2 :: uint64) \<le> 65536
   \<and> src_Read [Chunk [0x61, 0x62, 0x63] None] (unat (2 :: uint64))
       = ([0x61, 0x62], None, [Chunk [0x63] None])
   \<and> ReadStringBytes (NewReader [Chunk [0x02, 0x61, 0x62, 0x63] None])
       = (Return [0x61, 0x62] None,
          \<lparr>wrapped = [Chunk [0x63] None], buf = 0x61 # 0x62 # replicate 65534 0\<rparr>)"
proof -
  have l: "length (buf (NewReader src)) = 65536" for src
    by (simp add: NewReader_def)
  have h1: "ReadUvarint (NewReader [Chunk [0x81, 0x80, 0x04] None])
       = (Return 65537 None, \<lparr>wrapped = [], buf = 0x81 # 0x80 # 0x04 # replicate 65533 0\<rparr>)"
    by (simp add: ReadUvarint_def reader_eval)
  have h2: "ReadUvarint (NewReader [Chunk [0x02, 0x61, 0x62, 0x63] None])
       = (Return 2 None, \<lparr>wrapped = [Chunk [0x61, 0x62, 0x63] None], buf = 0x02 # replicate 65535 0\<rparr>)"
    by (simp add: ReadUvarint_def reader_eval)
  show ?thesis
    using l h1 h2 ReadStringBytes_panics_beyond_capacity [OF l h1]
      ReadStringBytes_panics_beyond_capacity [OF l h2, of "[0x61, 0x62]" None "[Chunk [0x63] None]"]
    by simp
qed

section \<open>Dates\<close>

lemma DateUint16_seconds:
  "sint (unix_sec (DateUint16 d)) = int (unat d) * 86400"
proof -
  let ?w = "ucast d * 86400 :: 64 word"
  have d: "unat d < 65536"
    using unsigned_less [of d, where 'a = nat] by simp
  have u: "unat (ucast d :: 64 word) = unat d"
    using d by (simp add: unsigned_ucast_eq take_bit_nat_eq_self)
  have "unat (ucast d :: 64 word) * unat (86400 :: 64 word) < 2 ^ LENGTH(64)"
    using d by (simp add: u)
  then have "unat ?w = unat (ucast d :: 64 word) * unat (86400 :: 64 word)"
    by (simp only: unat_mult_lem)
  then have m: "unat ?w = unat d * 86400"
    by (simp add: u)
  have i: "uint ?w = int (unat d * 86400)"
    by (simp only: m [symmetric]) simp
  have "(0::int) \<le> int (unat d * 86400)" by (rule of_nat_0_le_iff)
  moreover have "- (2 ^ 63) \<le> (0::int)" by simp
  ultimately have lo: "- (2 ^ 63) \<le> int (unat d * 86400)" by (rule order_trans [rotated])
  have "unat d * 86400 < 2 ^ 63"
    using d by simp
  then have "int (unat d * 86400) < int (2 ^ 63)"
    by (simp only: of_nat_less_iff)
  then have hi: "int (unat d * 86400) < 2 ^ 63"
    by simp
  have "sint ?w = signed_take_bit 63 (uint ?w)"
    by (simp add: sint_uint)
  also have "\<dots> = int (unat d * 86400)"
    unfolding i using lo hi by (rule signed_take_bit_int_eq_self)
  finally have "sint ?w = int (unat d) * 86400"
    by simp
  then show ?thesis
    by (simp add: DateUint16_def time_Unix_def in_UTC_def)
qed

text \<open>
  C8. For every 16-bit value \<open>d\<close> that \<open>ReadUint16\<close> reads, \<open>ReadDate\<close> returns the
  time \<open>d * 86400\<close> seconds after the Unix epoch, with no nanoseconds, in UTC. The bytes
  \<open>01 00\<close> give 86400 seconds, which is 1970-01-02T00:00:00 UTC.
\<close>

theorem ReadDate_days_since_epoch:
  assumes "ReadUint16 r = (Return d None, r')"
  shows "ReadDate r = (Return (DateUint16 d) None, r')
    \<and> sint (unix_sec (DateUint16 d)) = int (unat d) * 86400
    \<and> unix_nsec (DateUint16 d) = 0 \<and> loc (DateUint16 d) = UTC"
  using assms DateUint16_seconds [of d]
  by (simp add: ReadDate_def) (simp add: DateUint16_def time_Unix_def in_UTC_def)

theorem ReadDate_days_since_epoch_witness:
  "ReadUint16 (NewReader [Chunk [1, 0] None])
     = (Return 1 None, snd (ReadUint16 (NewReader [Chunk [1, 0] None])))
   \<and> fst (ReadDate (NewReader [Chunk [1, 0] None]))
     = Return \<lparr>unix_sec = 86400, unix_nsec = 0, loc = UTC\<rparr> None
   \<and> sint (unix_sec (DateUint16 1)) = 1 * 86400"
proof -
  have h: "ReadUint16 (NewReader [Chunk [1, 0] None])
     = (Return 1 None, snd (ReadUint16 (NewReader [Chunk [1, 0] None])))"
    by (simp add: ReadUint16_def reader_eval)
  show ?thesis
    using h ReadDate_days_since_epoch [OF h]
    by (simp add: DateUint16_def time_Unix_def in_UTC_def)
qed

section \<open>Lists of strings\<close>

lemma ReadString_error_empty:
  "ReadString r = (Return s (Some e), r') \<Longrightarrow> s = []"
  by (auto simp: ReadString_def split: prod.splits outcome.splits option.splits)

lemma reads_strings_Cons:
  "reads_strings r (s # ss) = Some r1 \<longleftrightarrow>
     (\<exists>r'. ReadString r = (Return s None, r') \<and> reads_strings r' ss = Some r1)"
  by (auto split: prod.splits outcome.splits option.splits if_splits)

lemma ReadStringList_loop_error:
  assumes "reads_strings r ss = Some r1" and "ReadString r1 = (Return s (Some e), r2)"
    and "i + length ss < n" and "length sList = n"
  shows "ReadStringList_loop r sList i n =
    (Return (take i sList @ ss @ s # drop (i + length ss + 1) sList) (Some e), r2)"
  using assms
proof (induction ss arbitrary: r sList i)
  case Nil
  then show ?case
    by (simp add: upd_conv_take_nth_drop)
next
  case (Cons s0 ss)
  from Cons.prems(1) obtain r' where
    r': "ReadString r = (Return s0 None, r')" "reads_strings r' ss = Some r1"
    unfolding reads_strings_Cons by blast
  have i: "i < n" "i < length sList" using Cons.prems(3,4) by simp_all
  have "ReadStringList_loop r sList i n = ReadStringList_loop r' (sList[i := s0]) (i + 1) n"
    using i r' by (simp del: ReadStringList_loop.simps add: ReadStringList_loop.simps [of r sList i n])
  also have "\<dots> = (Return (take (i + 1) (sList[i := s0]) @ ss @ s
        # drop (i + 1 + length ss + 1) (sList[i := s0])) (Some e), r2)"
    using Cons.prems(3,4) by (intro Cons.IH r' Cons.prems(2)) simp_all
  also have "take (i + 1) (sList[i := s0]) = take i sList @ [s0]"
    using i by (simp add: take_Suc_conv_app_nth)
  also have "drop (i + 1 + length ss + 1) (sList[i := s0]) = drop (i + length (s0 # ss) + 1) sList"
    by simp
  finally show ?case by simp
qed

lemma ReadStringList_loop_ok:
  assumes "ReadStringList_loop r sList i n = (Return l None, r')"
    and "length sList = n" and "i \<le> n"
  shows "\<exists>ss. length ss = n - i \<and> reads_strings r ss = Some r' \<and> l = take i sList @ ss"
  using assms
proof (induction r sList i n rule: ReadStringList_loop.induct)
  case (1 r sList i n)
  show ?case
  proof (cases "i < n")
    case False
    then show ?thesis using "1.prems" by simp
  next
    case True
    then have len: "i < length sList" using "1.prems"(2) by simp
    obtain res r1 where rs: "ReadString r = (res, r1)" by (cases "ReadString r") auto
    from "1.prems"(1) True len rs obtain s where
      res: "res = Return s None"
      and loop: "ReadStringList_loop r1 (sList[i := s]) (i + 1) n = (Return l None, r')"
      by (cases res)
        (auto simp del: ReadStringList_loop.simps
          simp add: ReadStringList_loop.simps [of r sList i n] split: if_splits)
    have "\<exists>ss. length ss = n - (i + 1) \<and> reads_strings r1 ss = Some r'
        \<and> l = take (i + 1) (sList[i := s]) @ ss"
      using len loop "1.prems"(2)
      by (intro "1.IH" [OF True _ rs [symmetric] res]) simp_all
    then obtain ss where ss: "length ss = n - (i + 1)" "reads_strings r1 ss = Some r'"
      "l = take (i + 1) (sList[i := s]) @ ss" by blast
    have "take (i + 1) (sList[i := s]) = take i sList @ [s]"
      using len by (simp add: take_Suc_conv_app_nth)
    then have "length (s # ss) = n - i \<and> reads_strings r (s # ss) = Some r'
        \<and> l = take i sList @ (s # ss)"
      using ss True rs res by simp
    then show ?thesis by blast
  qed
qed


lemma make_strings_within:
  fixes u :: uint64
  assumes "0 \<le> sint u" and "unat u \<le> 2 ^ 44"
  shows "make_strings (sint u) = Some (replicate (unat u) [])"
proof -
  have n: "nat (sint u) = unat u" using assms(1) by (rule nat_sint_uint64)
  have "int (nat (sint u)) = sint u" using assms(1) by (rule nat_0_le)
  then have "sint u = int (unat u)" by (simp only: n)
  moreover have "int (unat u) \<le> int (2 ^ 44)"
    using assms(2) by (simp only: of_nat_le_iff)
  ultimately have "sint u \<le> int (2 ^ 44)" by (simp only:)
  then have "sint u \<le> 2 ^ 44" by simp
  then have "\<not> maxAlloc < sizeof_string * sint u"
    by (simp add: maxAlloc_def sizeof_string_def)
  then show ?thesis
    using assms(1) n by (simp add: make_strings_def)
qed

lemma make_strings_Some:
  fixes u :: uint64
  assumes "make_strings (sint u) = Some sList"
  shows "sList = replicate (unat u) [] \<and> nat (sint u) = unat u \<and> unat u \<le> 2 ^ 44"
proof -
  have nn: "0 \<le> sint u" and le: "sizeof_string * sint u \<le> maxAlloc"
    and l: "sList = replicate (nat (sint u)) []"
    using assms by (auto simp: make_strings_def split: if_splits)
  have n: "nat (sint u) = unat u" using nn by (rule nat_sint_uint64)
  have "sint u \<le> 2 ^ 44"
    using le by (simp add: maxAlloc_def sizeof_string_def)
  then have "nat (sint u) \<le> nat (2 ^ 44)" by (rule nat_mono)
  then have "unat u \<le> 2 ^ 44" by (simp add: n)
  with l n show ?thesis by simp
qed

lemma ReadStringList_beyond_limit:
  assumes "ReadUvarint r = (Return u None, r0)" and "2 ^ 44 < unat u"
  shows "ReadStringList r = (Panic, r0)"
proof -
  have u: "u \<noteq> 0" using assms(2) by auto
  have "make_strings (sint u) = None"
  proof (cases "make_strings (sint u)")
    case None
    then show ?thesis .
  next
    case (Some sList)
    then have "unat u \<le> 2 ^ 44" using make_strings_Some by blast
    with assms(2) show ?thesis by simp
  qed
  then show ?thesis
    using assms(1) u by (simp add: ReadStringList_def Let_def)
qed

text \<open>
  The count \<open>2 ^ 44 + 1\<close>, in 7 bytes: the call panics in \<open>make\<close> and reads no
  element.
\<close>

lemma ReadStringList_count_beyond_limit:
  "ReadStringList (NewReader [Chunk [0x81, 0x80, 0x80, 0x80, 0x80, 0x80, 0x04] None])
     = (Panic, \<lparr>wrapped = [],
          buf = 0x81 # 0x80 # 0x80 # 0x80 # 0x80 # 0x80 # 0x04 # replicate 65529 0\<rparr>)"
  by (simp add: ReadStringList_def ReadUvarint_def reader_eval Let_def make_strings_def
      maxAlloc_def sizeof_string_def)

lemma ReadStringList_error:
  assumes "ReadUvarint r = (Return u None, r0)" and "unat u \<le> 2 ^ 44"
    and "reads_strings r0 ss = Some r1" and "int (length ss) < sint u"
    and "ReadString r1 = (Return s (Some e), r2)"
  shows "ReadStringList r = (Return (ss @ replicate (unat u - length ss) []) (Some e), r2)"
    and "length ss < unat u"
proof -
  let ?n = "nat (sint u)"
  have pos: "0 < sint u" using assms(4) by simp
  then have u: "u \<noteq> 0" by auto
  have n: "?n = unat u" using pos by (intro nat_sint_uint64) simp
  have m: "make_strings (sint u) = Some (replicate (unat u) [])"
    using pos assms(2) by (intro make_strings_within) simp_all
  have i: "length ss < ?n" using assms(4) by simp
  then show "length ss < unat u" by (simp only: n)
  have s: "s = []" using assms(5) by (rule ReadString_error_empty)
  have "ReadStringList_loop r0 (replicate ?n []) 0 ?n =
    (Return (take 0 (replicate ?n []) @ ss @ s # drop (0 + length ss + 1) (replicate ?n []))
       (Some e), r2)"
    using assms(3,5) i by (intro ReadStringList_loop_error) simp_all
  also have "ss @ s # drop (0 + length ss + 1) (replicate ?n []) = ss @ replicate (?n - length ss) []"
    using i by (simp add: s replicate_Suc [symmetric] Suc_diff_Suc del: replicate_Suc)
  finally have "ReadStringList_loop r0 (replicate ?n []) 0 ?n =
    (Return (ss @ replicate (?n - length ss) []) (Some e), r2)"
    by simp
  then show "ReadStringList r = (Return (ss @ replicate (unat u - length ss) []) (Some e), r2)"
    using assms(1) u m by (simp add: ReadStringList_def Let_def n)
qed

lemma ReadStringList_ok:
  assumes "ReadUvarint r = (Return u None, r0)"
    and "ReadStringList r = (Return l None, r')"
  shows "length l = unat u \<and> reads_strings r0 l = Some r'"
proof (cases "u = 0")
  case True
  then show ?thesis
    using assms by (simp add: ReadStringList_def)
next
  case False
  let ?n = "nat (sint u)"
  obtain sList where m: "make_strings (sint u) = Some sList"
    using assms False by (cases "make_strings (sint u)") (auto simp: ReadStringList_def Let_def)
  then have sl: "sList = replicate (unat u) []" and n: "?n = unat u"
    using make_strings_Some by blast+
  have "ReadStringList_loop r0 (replicate ?n []) 0 ?n = (Return l None, r')"
    using assms False m sl n by (simp add: ReadStringList_def Let_def)
  then have "\<exists>ss. length ss = ?n - 0 \<and> reads_strings r0 ss = Some r'
      \<and> l = take 0 (replicate ?n []) @ ss"
    by (rule ReadStringList_loop_ok) simp_all
  then show ?thesis
    by (auto simp: n)
qed

text \<open>
  C9. After the count \<open>u\<close> is read and the sequence allocated, which takes a count of
  \<open>2 ^ 44\<close> at most: when the strings \<open>ss\<close> have been decoded, fewer than the count,
  and the next call of \<open>ReadString\<close> returns the error \<open>e\<close>, \<open>ReadStringList\<close> returns
  \<open>e\<close> with a sequence that starts with \<open>ss\<close>. A call that returns no error returns
  exactly \<open>u\<close> strings, and they are the ones that \<open>u\<close> successive calls of
  \<open>ReadString\<close> decode; so a partly filled sequence comes only with an error. With a
  larger count no element is read: the call panics in \<open>make\<close>
  (\<open>ReadStringList_beyond_limit\<close>).
\<close>

theorem ReadStringList_partial_only_with_error:
  assumes "ReadUvarint r = (Return u None, r0)"
  shows "(unat u \<le> 2 ^ 44 \<and> reads_strings r0 ss = Some r1 \<and> int (length ss) < sint u
        \<and> ReadString r1 = (Return s (Some e), r2) \<longrightarrow>
       (\<exists>l. ReadStringList r = (Return l (Some e), r2) \<and> take (length ss) l = ss))
    \<and> (ReadStringList r = (Return l None, r') \<longrightarrow>
       length l = unat u \<and> reads_strings r0 l = Some r')"
  using ReadStringList_error(1) [OF assms, of ss r1 s e r2] ReadStringList_ok [OF assms, of l r']
  by auto

theorem ReadStringList_partial_only_with_error_witness:
  "ReadUvarint (NewReader [Chunk [0x02, 0x01, 0x61, 0x05, 0x62] None])
     = (Return 2 None, \<lparr>wrapped = [Chunk [0x01, 0x61, 0x05, 0x62] None], buf = 0x02 # replicate 65535 0\<rparr>)
   \<and> reads_strings \<lparr>wrapped = [Chunk [0x01, 0x61, 0x05, 0x62] None], buf = 0x02 # replicate 65535 0\<rparr> [[0x61]]
     = Some \<lparr>wrapped = [Chunk [0x05, 0x62] None], buf = 0x61 # replicate 65535 0\<rparr>
   \<and> int (length [[0x61 :: byte]]) < sint (2 :: uint64)
   \<and> unat (2 :: uint64) \<le> 2 ^ 44
   \<and> ReadString \<lparr>wrapped = [Chunk [0x05, 0x62] None], buf = 0x61 # replicate 65535 0\<rparr>
     = (Return [] (Some EOF), \<lparr>wrapped = [], buf = 0x62 # replicate 65535 0\<rparr>)
   \<and> (\<exists>l. ReadStringList (NewReader [Chunk [0x02, 0x01, 0x61, 0x05, 0x62] None])
          = (Return l (Some EOF), \<lparr>wrapped = [], buf = 0x62 # replicate 65535 0\<rparr>)
        \<and> take (length [[0x61 :: byte]]) l = [[0x61]])
   \<and> ReadUvarint (NewReader [Chunk [0x02, 0x01, 0x61, 0x00] None])
     = (Return 2 None, \<lparr>wrapped = [Chunk [0x01, 0x61, 0x00] None], buf = 0x02 # replicate 65535 0\<rparr>)
   \<and> ReadStringList (NewReader [Chunk [0x02, 0x01, 0x61, 0x00] None])
     = (Return [[0x61], []] None, \<lparr>wrapped = [], buf = 0x00 # replicate 65535 0\<rparr>)
   \<and> length [[0x61 :: byte], []] = unat (2 :: uint64)
   \<and> reads_strings \<lparr>wrapped = [Chunk [0x01, 0x61, 0x00] None], buf = 0x02 # replicate 65535 0\<rparr> [[0x61], []]
     = Some \<lparr>wrapped = [], buf = 0x00 # replicate 65535 0\<rparr>"
proof -
  have h1: "ReadUvarint (NewReader [Chunk [0x02, 0x01, 0x61, 0x05, 0x62] None])
     = (Return 2 None, \<lparr>wrapped = [Chunk [0x01, 0x61, 0x05, 0x62] None], buf = 0x02 # replicate 65535 0\<rparr>)"
    by (simp add: ReadUvarint_def reader_eval)
  have h2: "reads_strings \<lparr>wrapped = [Chunk [0x01, 0x61, 0x05, 0x62] None], buf = 0x02 # replicate 65535 0\<rparr> [[0x61]]
     = Some \<lparr>wrapped = [Chunk [0x05, 0x62] None], buf = 0x61 # replicate 65535 0\<rparr>"
    by (simp add: ReadString_def ReadStringBytes_def ReadUvarint_def reader_eval)
  have h3: "int (length [[0x61 :: byte]]) < sint (2 :: uint64)" by simp
  have h0: "unat (2 :: uint64) \<le> 2 ^ 44" by simp
  have h4: "ReadString \<lparr>wrapped = [Chunk [0x05, 0x62] None], buf = 0x61 # replicate 65535 0\<rparr>
     = (Return [] (Some EOF), \<lparr>wrapped = [], buf = 0x62 # replicate 65535 0\<rparr>)"
    by (simp add: ReadString_def ReadStringBytes_def ReadUvarint_def reader_eval)
  have rep: "replicate 2 ([] :: byte list) = [[], []]"
    by (simp add: numeral_2_eq_2)
  have g1: "ReadUvarint (NewReader [Chunk [0x02, 0x01, 0x61, 0x00] None])
     = (Return 2 None, \<lparr>wrapped = [Chunk [0x01, 0x61, 0x00] None], buf = 0x02 # replicate 65535 0\<rparr>)"
    by (simp add: ReadUvarint_def reader_eval)
  have g2: "ReadStringList (NewReader [Chunk [0x02, 0x01, 0x61, 0x00] None])
     = (Return [[0x61], []] None, \<lparr>wrapped = [], buf = 0x00 # replicate 65535 0\<rparr>)"
    by (simp add: ReadStringList_def ReadString_def ReadStringBytes_def ReadUvarint_def
        reader_eval Let_def rep make_strings_def maxAlloc_def sizeof_string_def)
  show ?thesis
    using h0 h1 h2 h3 h4 g1 g2
      ReadStringList_partial_only_with_error [OF h1, of "[[0x61]]"
        "\<lparr>wrapped = [Chunk [0x05, 0x62] None], buf = 0x61 # replicate 65535 0\<rparr>" "[]" EOF
        "\<lparr>wrapped = [], buf = 0x62 # replicate 65535 0\<rparr>"]
      ReadStringList_partial_only_with_error [OF g1, of _ _ _ _ _ "[[0x61], []]"
        "\<lparr>wrapped = [], buf = 0x00 # replicate 65535 0\<rparr>"]
    by blast
qed

text \<open>
  C10. When \<open>ReadStringList\<close> fails at element \<open>i\<close>, after it has read the count \<open>u\<close>,
  allocated the sequence (a count of \<open>2 ^ 44\<close> at most, or \<open>make\<close> panics before any
  element is read) and decoded the strings \<open>ss\<close> for the positions before \<open>i\<close>, the
  sequence it returns with the error has the declared length \<open>u\<close>: the strings \<open>ss\<close>,
  then empty strings from position \<open>i\<close> on.
\<close>

theorem ReadStringList_error_keeps_declared_length:
  assumes "ReadUvarint r = (Return u None, r0)" and "unat u \<le> 2 ^ 44"
    and "reads_strings r0 ss = Some r1" and "length ss = i" and "int i < sint u"
    and "ReadString r1 = (Return s (Some e), r2)"
  shows "ReadStringList r = (Return (ss @ replicate (unat u - i) []) (Some e), r2)
    \<and> length (ss @ replicate (unat u - i) []) = unat u"
  using ReadStringList_error [of r u r0 ss r1 s e r2] assms by auto

theorem ReadStringList_error_keeps_declared_length_witness:
  "ReadUvarint (NewReader [Chunk [0x03, 0x01, 0x61, 0x02, 0x62] None])
     = (Return 3 None, \<lparr>wrapped = [Chunk [0x01, 0x61, 0x02, 0x62] None], buf = 0x03 # replicate 65535 0\<rparr>)
   \<and> reads_strings \<lparr>wrapped = [Chunk [0x01, 0x61, 0x02, 0x62] None], buf = 0x03 # replicate 65535 0\<rparr> [[0x61]]
     = Some \<lparr>wrapped = [Chunk [0x02, 0x62] None], buf = 0x61 # replicate 65535 0\<rparr>
   \<and> int 1 < sint (3 :: uint64)
   \<and> unat (3 :: uint64) \<le> 2 ^ 44
   \<and> ReadString \<lparr>wrapped = [Chunk [0x02, 0x62] None], buf = 0x61 # replicate 65535 0\<rparr>
     = (Return [] (Some EOF), \<lparr>wrapped = [], buf = 0x62 # replicate 65535 0\<rparr>)
   \<and> ReadStringList (NewReader [Chunk [0x03, 0x01, 0x61, 0x02, 0x62] None])
     = (Return [[0x61], [], []] (Some EOF), \<lparr>wrapped = [], buf = 0x62 # replicate 65535 0\<rparr>)"
proof -
  have h1: "ReadUvarint (NewReader [Chunk [0x03, 0x01, 0x61, 0x02, 0x62] None])
     = (Return 3 None, \<lparr>wrapped = [Chunk [0x01, 0x61, 0x02, 0x62] None], buf = 0x03 # replicate 65535 0\<rparr>)"
    by (simp add: ReadUvarint_def reader_eval)
  have h2: "reads_strings \<lparr>wrapped = [Chunk [0x01, 0x61, 0x02, 0x62] None], buf = 0x03 # replicate 65535 0\<rparr> [[0x61]]
     = Some \<lparr>wrapped = [Chunk [0x02, 0x62] None], buf = 0x61 # replicate 65535 0\<rparr>"
    by (simp add: ReadString_def ReadStringBytes_def ReadUvarint_def reader_eval)
  have h3: "length [[0x61 :: byte]] = 1" by simp
  have h4: "int 1 < sint (3 :: uint64)" by simp
  have h0: "unat (3 :: uint64) \<le> 2 ^ 44" by simp
  have h5: "ReadString \<lparr>wrapped = [Chunk [0x02, 0x62] None], buf = 0x61 # replicate 65535 0\<rparr>
     = (Return [] (Some EOF), \<lparr>wrapped = [], buf = 0x62 # replicate 65535 0\<rparr>)"
    by (simp add: ReadString_def ReadStringBytes_def ReadUvarint_def reader_eval)
  have "unat (3 :: uint64) - 1 = Suc (Suc 0)" by simp
  then have e: "[[0x61 :: byte]] @ replicate (unat (3 :: uint64) - 1) [] = [[0x61], [], []]"
    by (simp only: replicate.simps append.simps)
  have "ReadStringList (NewReader [Chunk [0x03, 0x01, 0x61, 0x02, 0x62] None])
     = (Return [[0x61], [], []] (Some EOF), \<lparr>wrapped = [], buf = 0x62 # replicate 65535 0\<rparr>)"
    using ReadStringList_error_keeps_declared_length [OF h1 h0 h2 h3 h4 h5]
    by (simp only: e)
  with h0 h1 h2 h4 h5 show ?thesis by (intro conjI)
qed

section \<open>Reversal of dot-separated segments: properties\<close>

subsection \<open>The swap loop reverses the list\<close>

declare swap_loop.simps [simp del]

lemma swap_loop_length: "length (swap_loop a l i) = length a"
proof (induction a l i rule: swap_loop.induct)
  case (1 a l i)
  then show ?case
    by (cases "i < l div 2") (simp_all add: swap_loop.simps [of a l i])
qed

lemma swap_loop_nth:
  assumes "l = length a" and "k < l"
  shows "swap_loop a l i ! k = (if i \<le> k \<and> k < l - i then a ! (l - k - 1) else a ! k)"
  using assms
proof (induction a l i arbitrary: k rule: swap_loop.induct)
  case (1 a l i)
  show ?case
  proof (cases "i < l div 2")
    case False
    then have "i \<le> k \<and> k < l - i \<Longrightarrow> l - k - 1 = k"
      by linarith
    with False show ?thesis
      by (auto simp add: swap_loop.simps [of a l i])
  next
    case True
    let ?j = "l - i - 1"
    let ?a = "a[i := a ! ?j, ?j := a ! i]"
    have ij: "i < ?j" "?j < l" "i < l" using True by linarith+
    have len: "l = length ?a" using "1.prems"(1) by simp
    have la: "i < length a" "?j < length a" using ij "1.prems"(1) by simp_all
    have step: "swap_loop a l i = swap_loop ?a l (i + 1)"
      using True by (simp add: swap_loop.simps [of a l i])
    have IH: "swap_loop ?a l (i + 1) ! k
        = (if i + 1 \<le> k \<and> k < l - (i + 1) then ?a ! (l - k - 1) else ?a ! k)"
      using True len "1.prems"(2) by (rule "1.IH")
    consider (lo) "k = i" | (hi) "k = ?j" | (mid) "k \<noteq> i" "k \<noteq> ?j" by blast
    then show ?thesis
    proof cases
      case lo
      have "?a ! i = a ! ?j" using ij la by simp
      moreover have "\<not> (i + 1 \<le> k \<and> k < l - (i + 1))" using lo by simp
      moreover have "i \<le> k \<and> k < l - i" using lo ij by simp
      ultimately show ?thesis unfolding step IH using lo by simp
    next
      case hi
      have "?a ! ?j = a ! i" using la by simp
      moreover have "\<not> (i + 1 \<le> k \<and> k < l - (i + 1))" using hi by simp
      moreover have "i \<le> k \<and> k < l - i" using hi ij by linarith
      moreover have "l - k - 1 = i" using hi ij by linarith
      ultimately show ?thesis unfolding step IH using hi by simp
    next
      case mid
      have k: "?a ! k = a ! k" using mid by simp
      have c: "(i + 1 \<le> k \<and> k < l - (i + 1)) = (i \<le> k \<and> k < l - i)"
        using mid ij by linarith
      have "l - k - 1 \<noteq> i" "l - k - 1 \<noteq> ?j"
        using mid ij "1.prems"(2) by linarith+
      then have "?a ! (l - k - 1) = a ! (l - k - 1)" by simp
      with k c show ?thesis unfolding step IH by simp
    qed
  qed
qed

lemma swap_loop_rev: "swap_loop a (length a) 0 = rev a"
proof (rule nth_equalityI)
  show "length (swap_loop a (length a) 0) = length (rev a)"
    by (simp add: swap_loop_length)
next
  fix k
  assume "k < length (swap_loop a (length a) 0)"
  then have k: "k < length a" by (simp add: swap_loop_length)
  then show "swap_loop a (length a) 0 ! k = rev a ! k"
    by (simp add: swap_loop_nth rev_nth)
qed


subsection \<open>\<open>Split\<close> and \<open>Join\<close>\<close>

declare Split.simps [simp del]

lemma Split_Nil: "Split [] sep = [[]]"
  by (simp add: Split.simps [of "[]"])

lemma Split_Cons:
  "Split (c # cs) sep =
     (if c = sep then [] # Split cs sep
      else (c # hd (Split cs sep)) # tl (Split cs sep))"
proof (cases "c = sep")
  case True
  have "Split (sep # cs) sep = [] # Split cs sep"
    by (simp add: Split.simps [of "sep # cs" sep])
  with True show ?thesis by simp
next
  case False
  show ?thesis
  proof (cases "IndexByte cs sep")
    case None
    with False show ?thesis
      by (simp add: Split.simps [of "c # cs"] Split.simps [of cs])
  next
    case (Some m)
    with False show ?thesis
      by (simp add: Split.simps [of "c # cs"] Split.simps [of cs])
  qed
qed

lemma Split_not_Nil: "Split s sep \<noteq> []"
  by (induction s) (simp_all add: Split_Nil Split_Cons)

lemma Split_no_sep: "x \<in> set (Split s sep) \<Longrightarrow> sep \<notin> set x"
proof (induction s arbitrary: x)
  case Nil
  then show ?case by (simp add: Split_Nil)
next
  case (Cons c cs)
  have ne: "Split cs sep \<noteq> []" by (rule Split_not_Nil)
  then have hd: "hd (Split cs sep) \<in> set (Split cs sep)"
    and tl: "set (tl (Split cs sep)) \<subseteq> set (Split cs sep)"
    by (simp_all add: list.set_sel(2) subsetI)
  show ?case
  proof (cases "c = sep")
    case True
    with Cons show ?thesis by (auto simp: Split_Cons)
  next
    case False
    with Cons.prems have "x = c # hd (Split cs sep) \<or> x \<in> set (tl (Split cs sep))"
      by (simp add: Split_Cons)
    then show ?thesis
      using False hd tl Cons.IH by auto
  qed
qed

lemma Join_Cons: "xs \<noteq> [] \<Longrightarrow> Join (x # xs) sep = x @ sep @ Join xs sep"
  by (cases xs) simp_all

lemma Join_Split: "Join (Split s sep) [sep] = s"
proof (induction s)
  case Nil
  then show ?case by (simp add: Split_Nil)
next
  case (Cons c cs)
  have ne: "Split cs sep \<noteq> []" by (rule Split_not_Nil)
  then obtain x xs where x: "Split cs sep = x # xs" by (cases "Split cs sep") auto
  show ?case
  proof (cases "c = sep")
    case True
    then show ?thesis
      using Cons ne by (simp add: Split_Cons Join_Cons)
  next
    case False
    have "Join ((c # x) # xs) [sep] = c # Join (x # xs) [sep]"
      by (cases xs) simp_all
    then show ?thesis
      using Cons False x by (simp add: Split_Cons)
  qed
qed

lemma Split_append_sep:
  "sep \<notin> set x \<Longrightarrow> Split (x @ sep # rest) sep = x # Split rest sep"
  by (induction x) (auto simp: Split_Cons)

lemma Split_no_sep_id: "sep \<notin> set x \<Longrightarrow> Split x sep = [x]"
  by (induction x) (auto simp: Split_Nil Split_Cons)

lemma Split_Join:
  "xs \<noteq> [] \<Longrightarrow> \<forall>x\<in>set xs. sep \<notin> set x \<Longrightarrow> Split (Join xs [sep]) sep = xs"
proof (induction xs)
  case Nil
  then show ?case by simp
next
  case (Cons x xs)
  show ?case
  proof (cases "xs = []")
    case True
    with Cons.prems show ?thesis by (simp add: Split_no_sep_id)
  next
    case False
    with Cons show ?thesis
      by (simp add: Join_Cons Split_append_sep)
  qed
qed

lemma reverseBytesOriginal_eq:
  "reverseBytesOriginal s = Join (rev (Split s dot)) [dot]"
  by (simp add: reverseBytesOriginal_def Let_def swap_loop_rev)

subsection \<open>The contract of the spec, in terms of \<open>Split\<close> and \<open>Join\<close>\<close>

lemma split_from_Split:
  "split_from cur s = (cur @ hd (Split s dot)) # tl (Split s dot)"
proof (induction s arbitrary: cur)
  case Nil
  then show ?case by (simp add: Split_Nil)
next
  case (Cons c cs)
  then show ?case
    using Split_not_Nil [of cs dot] by (simp add: Split_Cons)
qed

lemma segments_Split: "segments s = Split s dot"
  using Split_not_Nil [of s dot] by (simp add: segments_def split_from_Split)

lemma foldl_Join:
  "foldl (\<lambda>acc seg. acc @ dot # seg) x xs = Join (x # xs) [dot]"
proof (induction xs arbitrary: x)
  case Nil
  then show ?case by simp
next
  case (Cons y ys)
  have "Join ((x @ dot # y) # ys) [dot] = x @ dot # Join (y # ys) [dot]"
    by (cases ys) simp_all
  with Cons show ?case by simp
qed

lemma rejoin_Join: "rejoin segs = Join segs [dot]"
  by (cases segs) (simp_all add: rejoin_def foldl_Join)

lemma length_Join:
  "length (Join xs sep) = sum_list (map length xs) + (length xs - 1) * length sep"
  by (induction xs sep rule: Join.induct) simp_all

lemma length_reverseBytesOriginal: "length (reverseBytesOriginal s) = length s"
proof -
  have "length (reverseBytesOriginal s) = length (Join (Split s dot) [dot])"
    by (simp add: reverseBytesOriginal_eq length_Join rev_map [symmetric])
  then show ?thesis by (simp add: Join_Split)
qed

lemma Join_rev_Split_twice:
  "Join (rev (Split (Join (rev (Split S sep)) [sep]) sep)) [sep] = S"
proof -
  let ?xs = "rev (Split S sep)"
  have "?xs \<noteq> []" by (simp add: Split_not_Nil)
  moreover have "\<forall>x\<in>set ?xs. sep \<notin> set x"
    by (simp add: Split_no_sep)
  ultimately have "Split (Join ?xs [sep]) sep = ?xs"
    by (rule Split_Join)
  then show ?thesis
    by (simp add: Join_Split)
qed

lemma ReverseMetricInplace_twice: "ReverseMetricInplace (ReverseMetricInplace S) = S"
  by (simp add: ReverseMetricInplace_def segments_Split rejoin_Join Join_rev_Split_twice)

text \<open>
  C5. The reversal of the segments, as \<open>reverseBytesOriginal\<close> computes it, is an
  involution: applied twice, it returns the byte sequence it was given.
\<close>

theorem reverseBytesOriginal_involution:
  "reverseBytesOriginal (reverseBytesOriginal S) = S"
  by (simp add: reverseBytesOriginal_eq Join_rev_Split_twice)

text \<open>
  C4. For every byte sequence \<open>S\<close>, the in-place flavour, the copy flavour with a
  destination as long as \<open>S\<close>, and the reference implementation of the tests all give
  the bytes obtained by splitting \<open>S\<close> at \<open>'.'\<close>, reversing the list of segments and
  joining it with \<open>'.'\<close>; so they agree with each other on every input. The two
  flavours are the ones modelled from the contract of the spec.
\<close>

theorem reversal_flavours_agree:
  "ReverseMetricInplace S = Join (rev (Split S dot)) [dot]
   \<and> (length dst = length S \<longrightarrow>
        ReverseBytesTo dst S = Some (Join (rev (Split S dot)) [dot]))
   \<and> reverseBytesOriginal S = Join (rev (Split S dot)) [dot]
   \<and> (length dst = length S \<longrightarrow> ReverseBytesTo dst S = Some (ReverseMetricInplace S))
   \<and> ReverseMetricInplace S = reverseBytesOriginal S"
  by (simp add: ReverseMetricInplace_def ReverseBytesTo_def segments_Split rejoin_Join
      reverseBytesOriginal_eq)

theorem reversal_flavours_agree_witness:
  "length (replicate 10 (0 :: byte))
     = length [0x63, 0x61, 0x72, 0x62, 0x6F, 0x6E, 0x2E, 0x2E, 0x78, 0x78 :: byte]
   \<and> ReverseBytesTo (replicate 10 0) [0x63, 0x61, 0x72, 0x62, 0x6F, 0x6E, 0x2E, 0x2E, 0x78, 0x78]
     = Some [0x78, 0x78, 0x2E, 0x2E, 0x63, 0x61, 0x72, 0x62, 0x6F, 0x6E]
   \<and> ReverseMetricInplace [0x63, 0x61, 0x72, 0x62, 0x6F, 0x6E, 0x2E, 0x2E, 0x78, 0x78]
     = [0x78, 0x78, 0x2E, 0x2E, 0x63, 0x61, 0x72, 0x62, 0x6F, 0x6E]
   \<and> reverseBytesOriginal [0x63, 0x61, 0x72, 0x62, 0x6F, 0x6E, 0x2E, 0x2E, 0x78, 0x78]
     = [0x78, 0x78, 0x2E, 0x2E, 0x63, 0x61, 0x72, 0x62, 0x6F, 0x6E]"
  using reversal_flavours_agree
    [of "[0x63, 0x61, 0x72, 0x62, 0x6F, 0x6E, 0x2E, 0x2E, 0x78, 0x78]" "replicate 10 0"]
  by (simp add: Split_Cons Split_Nil dot_def)

section \<open>What \<open>ReadUvarint\<close> decodes\<close>

text \<open>
  The two lemmas that end this section say how far the loop of \<open>ReadUvarint\<close> gets, for
  a stream held in memory. Every value below \<open>2 ^ 56\<close>, the values whose encoding has
  at most 8 bytes, is decoded to itself, whatever follows it in the stream. The call
  reports \<open>ErrUvarintOverflow\<close> exactly when the stream has 8 bytes at least and the
  first 8 all carry the continuation bit; the value \<open>2 ^ 56\<close> of C2 is the least one
  encoded so.
\<close>

subsection \<open>Groups of 7 bits\<close>

lemma byte_7f: "(0x7f :: byte) = mask 7"
  by (simp add: mask_eq_exp_minus_1)

lemma byte_80: "(0x80 :: byte) = 2 ^ 7"
  by simp

lemma take_bit_7_small: "(y :: uint64) < 0x80 \<Longrightarrow> take_bit 7 y = y"
proof -
  assume "y < 0x80"
  then have "y < 2 ^ 7" by simp
  then have "y AND mask 7 = y" by (rule less_mask_eq)
  then show ?thesis by (simp add: take_bit_eq_mask)
qed

lemma bit_int_128: "bit (128 :: int) n \<longleftrightarrow> n = 7"
proof -
  have "bit (2 ^ 7 :: int) n \<longleftrightarrow> n = 7"
    by (simp only: bit_exp_iff) auto
  then show ?thesis by simp
qed

lemma bit_int_127: "bit (127 :: int) n \<longleftrightarrow> n < 7"
proof -
  have "(127 :: int) = mask 7" by (simp add: mask_eq_exp_minus_1)
  then show ?thesis by (simp only: bit_mask_iff) auto
qed

lemma ucast_low7: "(ucast ((ucast (y :: uint64) OR 0x80 :: byte) AND 0x7f) :: uint64) = take_bit 7 y"
  by (rule bit_word_eqI) (auto simp: bit_simps bit_int_128 bit_int_127)

lemma ucast_small: "(y :: uint64) < 0x80 \<Longrightarrow> ucast (ucast y :: byte) = y"
proof -
  assume a: "y < 0x80"
  have "(ucast (ucast y :: byte) :: uint64) = take_bit 8 y"
    by (rule bit_word_eqI) (auto simp: bit_simps)
  also have "\<dots> = take_bit 8 (take_bit 7 y)"
    using a by (simp only: take_bit_7_small)
  also have "\<dots> = take_bit 7 y"
    by simp
  also have "\<dots> = y"
    using a by (rule take_bit_7_small)
  finally show ?thesis .
qed

lemma ucast_small_less: "(y :: uint64) < 0x80 \<Longrightarrow> (ucast y :: byte) < 0x80"
proof -
  assume "y < 0x80"
  then have "unat y < 128" by (simp add: word_less_nat_alt)
  then have "unat (ucast y :: byte) < 128"
    by (simp add: unsigned_ucast_eq take_bit_nat_eq_self)
  then show ?thesis by (simp add: word_less_nat_alt)
qed

lemma cont_byte_not_less: "\<not> (ucast (y :: uint64) OR 0x80 :: byte) < 0x80"
  by (metis le_word_or2 linorder_not_less or.commute)

lemma push_bit_groups:
  "push_bit s (take_bit 7 y) OR push_bit (s + 7) (drop_bit 7 y) = push_bit s (y :: uint64)"
proof (rule bit_word_eqI)
  fix n
  assume "n < LENGTH(64)"
  have "7 \<le> n - s \<Longrightarrow> 7 + (n - (s + 7)) = n - s" by arith
  moreover have "\<not> 7 \<le> n - s \<Longrightarrow> n - s < 7" by arith
  moreover have "s + 7 \<le> n \<longleftrightarrow> s \<le> n \<and> 7 \<le> n - s" by arith
  ultimately show "bit (push_bit s (take_bit 7 y) OR push_bit (s + 7) (drop_bit 7 y)) n
      = bit (push_bit s y) n"
    by (cases "7 \<le> n - s") (auto simp: bit_simps)
qed


declare PutUvarint.simps [simp del] ReadUvarint_loop.simps [simp del]

lemma PutUvarint_not_Nil: "PutUvarint y \<noteq> []"
  by (simp add: PutUvarint.simps [of y])

lemma length_PutUvarint:
  "unat y < 2 ^ (7 * k) \<Longrightarrow> 0 < k \<Longrightarrow> length (PutUvarint y) \<le> k"
proof (induction y arbitrary: k rule: PutUvarint.induct)
  case (1 y)
  show ?case
  proof (cases "0x80 \<le> y")
    case False
    then show ?thesis
      using "1.prems"(2) by (simp add: PutUvarint.simps [of y])
  next
    case True
    then have ge: "128 \<le> unat y" by (simp add: word_le_nat_alt)
    have k: "1 < k"
    proof (rule ccontr)
      assume "\<not> 1 < k"
      then have "k = 1" using "1.prems"(2) by simp
      then show False using "1.prems"(1) ge by simp
    qed
    then obtain j where j: "k = Suc j" "0 < j" by (cases k) auto
    have "unat y < 128 * 2 ^ (7 * j)"
      using "1.prems"(1) j by (simp add: power_add)
    then have "unat y div 128 < 2 ^ (7 * j)"
      by (simp add: less_mult_imp_div_less mult.commute)
    then have "unat (drop_bit 7 y) < 2 ^ (7 * j)"
      by (simp add: drop_bit_eq_div unat_div)
    then have "length (PutUvarint (drop_bit 7 y)) \<le> j"
      using True j(2) by (intro "1.IH")
    then show ?thesis
      using True j by (simp add: PutUvarint.simps [of y])
  qed
qed

lemma wrapped_Read_one:
  assumes "wrapped r = Chunk (b # bs) None # later" and "i < length (buf r)"
  shows "\<exists>r'. wrapped_Read r i (i + 1) = (1, None, r') \<and> buf r' ! i = b
    \<and> length (buf r') = length (buf r)
    \<and> wrapped r' = (if bs = [] then later else Chunk bs None # later)"
  using assms by (cases bs) (auto simp: wrapped_Read_def nth_append)

lemma ReadUvarint_loop_PutUvarint:
  assumes "wrapped r = Chunk (PutUvarint y @ rest) None # later"
    and "i + length (PutUvarint y) \<le> 8" and "8 \<le> length (buf r)"
  shows "fst (ReadUvarint_loop r i acc s) = Return (acc OR push_bit s y) None"
  using assms
proof (induction y arbitrary: r i acc s rule: PutUvarint.induct)
  case (1 y)
  have "0 < length (PutUvarint y)" using PutUvarint_not_Nil [of y] by simp
  then have i8: "i < 8"
    using "1.prems"(2) by linarith
  then have i: "\<not> SIZE_INT64 \<le> i" "\<not> length (buf r) < i + 1" "i < length (buf r)"
    using "1.prems"(3) by (simp_all add: SIZE_INT64_def)
  show ?case
  proof (cases "0x80 \<le> y")
    case False
    then have y: "y < 0x80" by simp
    let ?b = "ucast y :: byte"
    have p: "PutUvarint y = [?b]"
      using False by (simp add: PutUvarint.simps [of y])
    obtain r' where r': "wrapped_Read r i (i + 1) = (1, None, r')" "buf r' ! i = ?b"
      using wrapped_Read_one [of r ?b rest later i] "1.prems"(1) i(3) p by auto
    have "?b < 0x80" using y by (rule ucast_small_less)
    moreover have "ucast ?b = y" using y by (rule ucast_small)
    ultimately show ?thesis
      using i i8 r'
      by (simp add: ReadUvarint_loop.simps [of r i acc s])
  next
    case True
    let ?b = "ucast y OR 0x80 :: byte"
    let ?y = "drop_bit 7 y"
    have p: "PutUvarint y = ?b # PutUvarint ?y"
      using True by (simp add: PutUvarint.simps [of y])
    have ne: "PutUvarint ?y @ rest \<noteq> []" by (simp add: PutUvarint_not_Nil)
    obtain r' where r': "wrapped_Read r i (i + 1) = (1, None, r')" "buf r' ! i = ?b"
      "length (buf r') = length (buf r)"
      "wrapped r' = Chunk (PutUvarint ?y @ rest) None # later"
      using wrapped_Read_one [of r ?b "PutUvarint ?y @ rest" later i] "1.prems"(1) i(3) p ne
      by auto
    have nb: "\<not> ?b < 0x80" by (rule cont_byte_not_less)
    have "fst (ReadUvarint_loop r' (i + 1) (acc OR push_bit s (ucast (?b AND 0x7f))) (s + 7))
        = Return ((acc OR push_bit s (ucast (?b AND 0x7f))) OR push_bit (s + 7) ?y) None"
      using True r'(3,4) "1.prems"(2,3) p by (intro "1.IH") simp_all
    also have "(acc OR push_bit s (ucast (?b AND 0x7f))) OR push_bit (s + 7) ?y
        = acc OR push_bit s y"
      by (simp only: ucast_low7 or.assoc push_bit_groups)
    finally show ?thesis
      using i r'(1,2) nb
      by (simp add: ReadUvarint_loop.simps [of r i acc s])
  qed
qed

lemma ReadUvarint_PutUvarint_below_2_56:
  assumes "unat x < 2 ^ 56"
  shows "fst (ReadUvarint (NewReader [Chunk (PutUvarint x @ rest) None])) = Return x None"
proof -
  have "unat x < 2 ^ (7 * 8)" using assms by simp
  then have "length (PutUvarint x) \<le> 8" by (rule length_PutUvarint) simp
  then have "fst (ReadUvarint_loop (NewReader [Chunk (PutUvarint x @ rest) None]) 0 0 0)
      = Return (0 OR push_bit 0 x) None"
    by (intro ReadUvarint_loop_PutUvarint [where later = "[]"]) (simp_all add: NewReader_def)
  then show ?thesis by (simp add: ReadUvarint_def)
qed

subsection \<open>The overflow\<close>

lemma ReadUvarint_loop_8:
  "ReadUvarint_loop r 8 acc s = (Return 0 (Some ErrUvarintOverflow), r)"
  by (simp add: ReadUvarint_loop.simps [of r 8 acc s] SIZE_INT64_def)

lemma ReadUvarint_loop_overflow_iff:
  assumes "wrapped r = [Chunk bs None] \<or> bs = [] \<and> wrapped r = []"
    and "8 \<le> length (buf r)" and "i \<le> 8"
  shows "fst (ReadUvarint_loop r i acc s) = Return 0 (Some ErrUvarintOverflow)
    \<longleftrightarrow> 8 - i \<le> length bs \<and> (\<forall>b\<in>set (take (8 - i) bs). 0x80 \<le> b)"
  using assms
proof (induction bs arbitrary: r i acc s)
  case Nil
  show ?case
  proof (cases "i = 8")
    case True
    then show ?thesis
      by (simp add: ReadUvarint_loop_8)
  next
    case False
    then have i: "i < 8" using Nil.prems(3) by simp
    then show ?thesis
      using Nil.prems(1,2)
      by (auto simp: ReadUvarint_loop.simps [of r i acc s] SIZE_INT64_def wrapped_Read_def)
  qed
next
  case (Cons b bs)
  show ?case
  proof (cases "i = 8")
    case True
    then show ?thesis
      by (simp add: ReadUvarint_loop_8)
  next
    case False
    then have i: "i < 8" using Cons.prems(3) by simp
    then have il: "i < length (buf r)" using Cons.prems(2) by simp
    have w: "wrapped r = Chunk (b # bs) None # []" using Cons.prems(1) by simp
    obtain r' where r': "wrapped_Read r i (i + 1) = (1, None, r')" "buf r' ! i = b"
      "length (buf r') = length (buf r)"
      "wrapped r' = (if bs = [] then [] else Chunk bs None # [])"
      using wrapped_Read_one [OF w il] by blast
    obtain n where n: "8 - i = Suc n" "8 - (i + 1) = n" using i by (cases "8 - i") auto
    show ?thesis
    proof (cases "b < 0x80")
      case True
      then have "\<not> 0x80 \<le> b" by simp
      then show ?thesis
        using True i il r'(1,2) n
        by (simp add: ReadUvarint_loop.simps [of r i acc s] SIZE_INT64_def)
    next
      case False
      have inv: "wrapped r' = [Chunk bs None] \<or> bs = [] \<and> wrapped r' = []"
        using r'(4) by simp
      have "fst (ReadUvarint_loop r' (i + 1) (acc OR push_bit s (ucast (b AND 0x7f))) (s + 7))
            = Return 0 (Some ErrUvarintOverflow)
        \<longleftrightarrow> 8 - (i + 1) \<le> length bs \<and> (\<forall>b\<in>set (take (8 - (i + 1)) bs). 0x80 \<le> b)"
        using inv r'(3) Cons.prems(2) i by (intro Cons.IH) simp_all
      moreover have "0x80 \<le> b" using False by simp
      ultimately show ?thesis
        using False i il r'(1,2) n
        by (simp add: ReadUvarint_loop.simps [of r i acc s] SIZE_INT64_def)
    qed
  qed
qed

lemma ReadUvarint_overflow_iff:
  "fst (ReadUvarint (NewReader [Chunk bs None])) = Return 0 (Some ErrUvarintOverflow)
   \<longleftrightarrow> 8 \<le> length bs \<and> (\<forall>b\<in>set (take 8 bs). 0x80 \<le> b)"
  using ReadUvarint_loop_overflow_iff [of "NewReader [Chunk bs None]" bs 0 0 0]
  by (simp add: ReadUvarint_def NewReader_def)

end
